theory Spec2Isabelle
  imports
    Main
    "HOL-Library.Char_ord"
    "HOL-Library.List_Lexorder"
    "HOL-Library.AList"
    "HOL-Library.Multiset"
begin

section \<open>Data model\<close>

text \<open>
  The program is a single Go file, \<^verbatim>\<open>main.go\<close>.  Go strings are byte sequences and are
  modelled as \<^typ>\<open>string\<close> (lists of 8-bit characters).  A Go \<^verbatim>\<open>map[string]string\<close> is
  modelled as an association list with pairwise distinct keys: assignment
  \<^verbatim>\<open>m[k] = v\<close> is \<^const>\<open>AList.update\<close>, and the order of the list plays the part of the
  (unspecified) iteration order of the Go map.
\<close>

type_synonym recordMap = "(string \<times> string) list"

record inputFile =
  filepath :: string
  separator :: string
  pretty :: bool

text \<open>Errors of \<^verbatim>\<open>encoding/csv\<close> and \<^verbatim>\<open>io\<close> that \<^verbatim>\<open>Reader.Read\<close> can return.\<close>

datatype csvError = EOF | ErrFieldCount | ErrBareQuote | ErrQuote

text \<open>Every error value that the program creates or passes to \<^verbatim>\<open>exitGracefully\<close>.\<close>

datatype error =
    FilepathRequired
  | SeparatorNotAllowed
  | NotCSV string
  | DoesNotExist string
  | OpenFailed string
  | CsvError csvError
  | LineMismatch

section \<open>The library reader: \<^verbatim>\<open>encoding/csv\<close>\<close>

text \<open>
  \<^verbatim>\<open>csv.NewReader\<close> returns a reader with \<^verbatim>\<open>Comma = ','\<close>, \<^verbatim>\<open>Comment = 0\<close>,
  \<^verbatim>\<open>FieldsPerRecord = 0\<close>, \<^verbatim>\<open>LazyQuotes = false\<close> and \<^verbatim>\<open>TrimLeadingSpace = false\<close>;
  \<^verbatim>\<open>processCsvFile\<close> changes only \<^verbatim>\<open>Comma\<close>.  The definitions below follow
  \<^verbatim>\<open>Reader.readLine\<close> and \<^verbatim>\<open>Reader.readRecord\<close> of the Go standard library for these
  settings.  The input is an in-memory byte string, so the only read error is \<^verbatim>\<open>io.EOF\<close>;
  line and column numbers, which appear only in error messages, are left out.
\<close>

definition NL :: char where "NL = CHR 0x0A"
definition CR :: char where "CR = CHR 0x0D"
definition DQ :: char where "DQ = CHR 0x22"

record csvReader =
  Comma :: char
  FieldsPerRecord :: int
  unread :: string

definition NewReader :: "string \<Rightarrow> csvReader" where
  "NewReader s = \<lparr>Comma = CHR '','', FieldsPerRecord = 0, unread = s\<rparr>"

text \<open>\<^verbatim>\<open>bufio.Reader.ReadSlice('\n')\<close>: the bytes up to and including the first newline;
  the flag is set when the input ended before a newline was found.\<close>

fun ReadSlice :: "string \<Rightarrow> string \<times> bool \<times> string" where
  "ReadSlice [] = ([], True, [])"
| "ReadSlice (c # cs) =
     (if c = NL then ([c], False, cs)
      else (case ReadSlice cs of (line, eof, rest) \<Rightarrow> (c # line, eof, rest)))"

text \<open>\<^verbatim>\<open>lengthNL\<close>: 1 if the line ends in a newline, else 0.\<close>

definition lengthNL :: "string \<Rightarrow> nat" where
  "lengthNL b = (if b \<noteq> [] \<and> last b = NL then 1 else 0)"

text \<open>\<^verbatim>\<open>Reader.readLine\<close>: a non-empty last line without newline is not an end of file yet
  and loses a trailing carriage return; \<^verbatim>\<open>\r\n\<close> at the end of a line becomes \<^verbatim>\<open>\n\<close>.
  The result is the line, the end-of-file flag and the input that is left.\<close>

definition readLine :: "string \<Rightarrow> string \<times> bool \<times> string" where
  "readLine s =
     (let (line0, eof0, rest) = ReadSlice s;
          (line1, eof) =
             (if line0 \<noteq> [] \<and> eof0
              then (if last line0 = CR then butlast line0 else line0, False)
              else (line0, eof0));
          n = length line1;
          line = (if n \<ge> 2 \<and> line1 ! (n - 2) = CR \<and> line1 ! (n - 1) = NL
                  then take (n - 2) line1 @ [NL] else line1)
      in (line, eof, rest))"

lemma ReadSlice_length:
  "ReadSlice s = (line, eof, rest) \<Longrightarrow> length line + length rest = length s"
  by (induction s arbitrary: line eof rest) (auto split: if_splits prod.splits)

lemma ReadSlice_not_eof:
  "ReadSlice s = (line, eof, rest) \<Longrightarrow> \<not> eof \<Longrightarrow> line \<noteq> []"
  by (cases s) (auto split: if_splits prod.splits)

lemma readLine_length:
  "readLine s = (line, eof, rest) \<Longrightarrow> length line + length rest \<le> length s"
proof -
  assume a: "readLine s = (line, eof, rest)"
  obtain l0 e0 r0 where rs: "ReadSlice s = (l0, e0, r0)"
    by (cases "ReadSlice s") auto
  from a rs have "rest = r0" and "length line \<le> length l0"
    by (auto simp add: readLine_def Let_def split: if_splits)
  with ReadSlice_length [OF rs] show ?thesis by simp
qed

lemma readLine_not_eof:
  "readLine s = (line, eof, rest) \<Longrightarrow> \<not> eof \<Longrightarrow> length rest < length s"
proof -
  assume a: "readLine s = (line, eof, rest)" and b: "\<not> eof"
  obtain l0 e0 r0 where rs: "ReadSlice s = (l0, e0, r0)"
    by (cases "ReadSlice s") auto
  from a rs have r: "rest = r0" by (auto simp add: readLine_def Let_def split: if_splits)
  from a rs b have "l0 \<noteq> []"
    by (auto simp add: readLine_def Let_def split: if_splits dest: ReadSlice_not_eof)
  with ReadSlice_length [OF rs] r show ?thesis by (cases l0) auto
qed

text \<open>The first loop of \<^verbatim>\<open>readRecord\<close>: read a line, skipping empty lines
  (\<^verbatim>\<open>Comment\<close> is 0, so no line is a comment).\<close>

function nextLine :: "string \<Rightarrow> string \<times> bool \<times> string" where
  "nextLine s =
     (case readLine s of (line, eof, rest) \<Rightarrow>
        if \<not> eof \<and> length line = lengthNL line then nextLine rest else (line, eof, rest))"
  by pat_completeness auto
termination
  by (relation "measure length") (auto dest: readLine_not_eof [OF sym])

declare nextLine.simps [simp del]

text \<open>\<^verbatim>\<open>bytes.IndexByte\<close>, with \<open>None\<close> for the result \<open>-1\<close>.\<close>

fun IndexByte :: "string \<Rightarrow> char \<Rightarrow> nat option" where
  "IndexByte [] c = None"
| "IndexByte (x # xs) c = (if x = c then Some 0 else map_option Suc (IndexByte xs c))"

lemma IndexByte_Some: "IndexByte xs c = Some i \<Longrightarrow> i < length xs \<and> xs ! i = c"
  by (induction xs arbitrary: i) (auto split: if_splits)

lemma IndexByte_None: "IndexByte xs c = None \<longleftrightarrow> c \<notin> set xs"
  by (induction xs) auto

text \<open>
  The \<^verbatim>\<open>parseField\<close> loop of \<^verbatim>\<open>readRecord\<close>.  \<open>parseField\<close> is the head of the loop,
  \<open>parseQuoted\<close> the inner loop for a quoted field, which reads further lines while the
  closing quote is missing.  \<open>acc\<close> holds the finished fields in reverse, \<open>buf\<close> the
  bytes of the quoted field read so far.  On an error the fields finished before it are
  returned with it, as \<^verbatim>\<open>readRecord\<close> does.
\<close>

function parseField :: "char \<Rightarrow> string \<Rightarrow> string \<Rightarrow> string list \<Rightarrow> string list \<times> csvError option \<times> string"
  and parseQuoted :: "char \<Rightarrow> string \<Rightarrow> string \<Rightarrow> string \<Rightarrow> string list \<Rightarrow> string list \<times> csvError option \<times> string"
where
  "parseField comma line rest acc =
     (if line = [] \<or> hd line \<noteq> DQ then
        (case IndexByte line comma of
           Some i \<Rightarrow>
             (let field = take i line in
              if DQ \<in> set field then (rev acc, Some ErrBareQuote, rest)
              else parseField comma (drop (i + 1) line) rest (field # acc))
         | None \<Rightarrow>
             (let field = take (length line - lengthNL line) line in
              if DQ \<in> set field then (rev acc, Some ErrBareQuote, rest)
              else (rev (field # acc), None, rest)))
      else parseQuoted comma (tl line) rest [] acc)"
| "parseQuoted comma line rest buf acc =
     (case IndexByte line DQ of
        Some i \<Rightarrow>
          (let buf' = buf @ take i line; line' = drop (i + 1) line in
           if line' \<noteq> [] \<and> hd line' = DQ then parseQuoted comma (tl line') rest (buf' @ [DQ]) acc
           else if line' \<noteq> [] \<and> hd line' = comma then parseField comma (tl line') rest (buf' # acc)
           else if lengthNL line' = length line' then (rev (buf' # acc), None, rest)
           else (rev acc, Some ErrQuote, rest))
      | None \<Rightarrow>
          (if line \<noteq> [] then
             (case readLine rest of (line', eof, rest') \<Rightarrow>
                parseQuoted comma line' rest' (buf @ line) acc)
           else (rev acc, Some ErrQuote, rest)))"
  by pat_completeness auto
termination
proof (relation "measure (\<lambda>x. case x of
           Inl (comma, line, rest, acc) \<Rightarrow> length line + length rest
         | Inr (comma, line, rest, buf, acc) \<Rightarrow> length line + length rest)")
qed (auto dest: IndexByte_Some readLine_length [OF sym] simp add: neq_Nil_conv)

declare parseField.simps [simp del] parseQuoted.simps [simp del]

text \<open>\<^verbatim>\<open>Reader.readRecord\<close>: the record (nil is the empty list), the error if any,
  and the reader after the call.\<close>

definition readRecord :: "csvReader \<Rightarrow> (string list \<times> csvError option) \<times> csvReader" where
  "readRecord r =
     (case nextLine (unread r) of (line, eof, rest) \<Rightarrow>
        if eof then (([], Some EOF), r\<lparr>unread := rest\<rparr>)
        else
          (case parseField (Comma r) line rest [] of (dst, err, rest') \<Rightarrow>
             if FieldsPerRecord r > 0 then
               (if int (length dst) \<noteq> FieldsPerRecord r \<and> err = None
                then ((dst, Some ErrFieldCount), r\<lparr>unread := rest'\<rparr>)
                else ((dst, err), r\<lparr>unread := rest'\<rparr>))
             else if FieldsPerRecord r = 0 then
               ((dst, err), r\<lparr>unread := rest', FieldsPerRecord := int (length dst)\<rparr>)
             else ((dst, err), r\<lparr>unread := rest'\<rparr>)))"

text \<open>\<^verbatim>\<open>Reader.Read\<close> (\<^verbatim>\<open>ReuseRecord\<close> is false).\<close>

definition Read :: "csvReader \<Rightarrow> (string list \<times> csvError option) \<times> csvReader" where
  "Read r = readRecord r"

lemma nextLine_not_eof:
  "nextLine s = (line, eof, rest) \<Longrightarrow> \<not> eof \<Longrightarrow> length rest < length s"
proof (induction s rule: nextLine.induct)
  case (1 s)
  obtain l e r where rl: "readLine s = (l, e, r)"
    by (cases "readLine s") auto
  show ?case
  proof (cases "\<not> e \<and> length l = lengthNL l")
    case True
    with rl "1.prems" have "nextLine r = (line, eof, rest)"
      by (simp add: nextLine.simps [of s])
    with "1.IH" [OF rl [symmetric] refl] True "1.prems" have "length rest < length r"
      by simp
    moreover from rl True have "length r < length s"
      by (auto dest: readLine_not_eof)
    ultimately show ?thesis by simp
  next
    case False
    with rl "1.prems" have "l = line" "e = eof" "r = rest"
      by (auto simp add: nextLine.simps [of s])
    with rl "1.prems" show ?thesis
      by (auto dest: readLine_not_eof)
  qed
qed

lemma parse_rest_le:
  "parseField comma line rest acc = (dst, err, rest') \<Longrightarrow> length rest' \<le> length rest"
  "parseQuoted comma line rest buf acc = (dst, err, rest') \<Longrightarrow> length rest' \<le> length rest"
proof (induction comma line rest acc and comma line rest buf acc
       arbitrary: dst err rest' and dst err rest' rule: parseField_parseQuoted.induct)
  case (1 comma line rest acc)
  from "1.prems" have
    "(if line = [] \<or> hd line \<noteq> DQ then
        (case IndexByte line comma of
           Some i \<Rightarrow>
             (let field = take i line in
              if DQ \<in> set field then (rev acc, Some ErrBareQuote, rest)
              else parseField comma (drop (i + 1) line) rest (field # acc))
         | None \<Rightarrow>
             (let field = take (length line - lengthNL line) line in
              if DQ \<in> set field then (rev acc, Some ErrBareQuote, rest)
              else (rev (field # acc), None, rest)))
      else parseQuoted comma (tl line) rest [] acc) = (dst, err, rest')"
    by (subst (asm) parseField.simps)
  with "1.IH" show ?case
    by (auto simp add: Let_def split: if_splits option.splits)
next
  case (2 comma line rest buf acc)
  from "2.prems" have
    "(case IndexByte line DQ of
        Some i \<Rightarrow>
          (let buf' = buf @ take i line; line' = drop (i + 1) line in
           if line' \<noteq> [] \<and> hd line' = DQ then parseQuoted comma (tl line') rest (buf' @ [DQ]) acc
           else if line' \<noteq> [] \<and> hd line' = comma then parseField comma (tl line') rest (buf' # acc)
           else if lengthNL line' = length line' then (rev (buf' # acc), None, rest)
           else (rev acc, Some ErrQuote, rest))
      | None \<Rightarrow>
          (if line \<noteq> [] then
             (case readLine rest of (line', eof, rest') \<Rightarrow>
                parseQuoted comma line' rest' (buf @ line) acc)
           else (rev acc, Some ErrQuote, rest))) = (dst, err, rest')"
    by (subst (asm) parseQuoted.simps)
  with "2.IH" show ?case
    by (fastforce simp add: Let_def split: if_splits option.splits prod.splits
                  dest: readLine_length)
qed

lemma Read_consumes:
  assumes "Read r = ((line, err), r')" and "err \<noteq> Some EOF"
  shows "length (unread r') < length (unread r)"
proof -
  obtain l e rest where nl: "nextLine (unread r) = (l, e, rest)"
    by (cases "nextLine (unread r)") auto
  with assms have ne: "\<not> e"
    by (auto simp add: Read_def readRecord_def)
  obtain dst perr rest' where pf: "parseField (Comma r) l rest [] = (dst, perr, rest')"
    by (cases "parseField (Comma r) l rest []") auto
  from assms nl ne pf have "unread r' = rest'"
    by (auto simp add: Read_def readRecord_def split: if_splits)
  moreover from pf have "length rest' \<le> length rest" by (rule parse_rest_le)
  moreover from nl ne have "length rest < length (unread r)" by (rule nextLine_not_eof)
  ultimately show ?thesis by simp
qed

section \<open>The reader: \<^verbatim>\<open>processLine\<close> and \<^verbatim>\<open>processCsvFile\<close>\<close>

text \<open>
  \<^verbatim>\<open>processLine\<close>: a line with a different number of fields than the header is an
  error; otherwise field \<open>i\<close> of the line is stored under header name \<open>i\<close>, in the order
  of the header.  The two lists have the same length inside the loop, so
  \<^verbatim>\<open>dataList[i]\<close> is always in range and the loop is a fold over the zipped lists.
\<close>

definition processLine :: "string list \<Rightarrow> string list \<Rightarrow> error + recordMap" where
  "processLine headers dataList =
     (if length dataList \<noteq> length headers then Inl LineMismatch
      else Inr (fold (\<lambda>(name, d) recordMap. AList.update name d recordMap)
                     (zip headers dataList) []))"

text \<open>
  What one run of \<^verbatim>\<open>processCsvFile\<close> does that others can see: the records it sends on
  \<^verbatim>\<open>writerChannel\<close> in order, the arguments of each \<^verbatim>\<open>fmt.Printf\<close> call that reports a
  skipped line, and how it ends: \<open>None\<close> when it closes the channel at end of input,
  \<open>Some e\<close> when it calls \<^verbatim>\<open>exitGracefully(e)\<close>.
\<close>

record readerRun =
  sent :: "recordMap list"
  printed :: "(string list \<times> error) list"
  fatal :: "error option"

text \<open>The \<^verbatim>\<open>for\<close> loop of \<^verbatim>\<open>processCsvFile\<close>.\<close>

function readLoop :: "string list \<Rightarrow> csvReader \<Rightarrow> readerRun" where
  "readLoop headers reader =
     (case Read reader of ((line, err), reader') \<Rightarrow>
        if err = Some EOF then \<lparr>sent = [], printed = [], fatal = None\<rparr>
        else if err \<noteq> None then \<lparr>sent = [], printed = [], fatal = Some (CsvError (the err))\<rparr>
        else
          (case processLine headers line of
             Inl e \<Rightarrow>
               (let run = readLoop headers reader' in run\<lparr>printed := (line, e) # printed run\<rparr>)
           | Inr record \<Rightarrow>
               (let run = readLoop headers reader' in run\<lparr>sent := record # sent run\<rparr>)))"
  by pat_completeness auto
termination
  by (relation "measure (\<lambda>(headers, reader). length (unread reader))")
     (auto dest!: Read_consumes [OF sym])

declare readLoop.simps [simp del]

text \<open>
  The input file as the program meets it: \<^verbatim>\<open>os.Stat\<close> reports that it does not exist,
  or fails for another reason, or the file is there but \<^verbatim>\<open>os.Open\<close> fails, or it can
  be read and has the given bytes.
\<close>

datatype fsentry = NotExist | StatError | OpenError | Regular string

type_synonym filesys = "string \<Rightarrow> fsentry"

text \<open>The reader that \<^verbatim>\<open>processCsvFile\<close> sets up on the opened file: the separator
  is changed only for \<^verbatim>\<open>semicolon\<close>.\<close>

definition openReader :: "inputFile \<Rightarrow> string \<Rightarrow> csvReader" where
  "openReader fileData bytes =
     (let reader = NewReader bytes
      in if separator fileData = ''semicolon'' then reader\<lparr>Comma := CHR '';''\<rparr> else reader)"

definition processCsvFile :: "filesys \<Rightarrow> inputFile \<Rightarrow> readerRun" where
  "processCsvFile fs fileData =
     (case fs (filepath fileData) of
        Regular bytes \<Rightarrow>
          (case Read (openReader fileData bytes) of ((headers, err), reader') \<Rightarrow>
             if err \<noteq> None
             then \<lparr>sent = [], printed = [], fatal = Some (CsvError (the err))\<rparr>
             else readLoop headers reader')
      | _ \<Rightarrow> \<lparr>sent = [], printed = [], fatal = Some (OpenFailed (filepath fileData))\<rparr>)"

text \<open>
  The records that successive calls of \<^verbatim>\<open>Read\<close> deliver, up to the end of the input
  (\<open>None\<close>) or the first error.  This is how the properties below speak about the rows
  of an input text.
\<close>

function readRecords :: "csvReader \<Rightarrow> string list list \<times> csvError option" where
  "readRecords reader =
     (case Read reader of ((line, err), reader') \<Rightarrow>
        if err = Some EOF then ([], None)
        else if err \<noteq> None then ([], err)
        else (case readRecords reader' of (rows, e) \<Rightarrow> (line # rows, e)))"
  by pat_completeness auto
termination
  by (relation "measure (\<lambda>reader. length (unread reader))")
     (auto dest!: Read_consumes [OF sym])

declare readRecords.simps [simp del]

section \<open>The library encoder: \<^verbatim>\<open>encoding/json\<close>\<close>

text \<open>
  \<^verbatim>\<open>json.Marshal\<close> of a \<^verbatim>\<open>map[string]string\<close>: the keys are collected, sorted as byte
  strings and written as \<^verbatim>\<open>{"k":"v",...}\<close>; keys and values go through the same string
  encoder, with HTML escaping on (the default of \<^verbatim>\<open>Marshal\<close>).  The definitions follow
  \<^verbatim>\<open>appendString\<close> and \<^verbatim>\<open>utf8.DecodeRuneInString\<close> of the Go standard library
  (Go 1.22 and later, where backspace and form feed are written \<^verbatim>\<open>\b\<close> and \<^verbatim>\<open>\f\<close>).
\<close>

definition BSL :: char where "BSL = CHR 0x5C"

definition hex :: "nat \<Rightarrow> char" where
  "hex n = ''0123456789abcdef'' ! n"

text \<open>\<^verbatim>\<open>htmlSafeSet[b]\<close> for a byte below \<^verbatim>\<open>utf8.RuneSelf\<close>.\<close>

definition htmlSafe :: "char \<Rightarrow> bool" where
  "htmlSafe b \<longleftrightarrow>
     0x20 \<le> (of_char b :: nat) \<and> b \<noteq> DQ \<and> b \<noteq> CHR ''&'' \<and> b \<noteq> CHR ''<'' \<and>
     b \<noteq> CHR ''>'' \<and> b \<noteq> BSL"

text \<open>The \<^verbatim>\<open>switch\<close> of \<^verbatim>\<open>appendString\<close> for a byte that is not in \<^verbatim>\<open>htmlSafeSet\<close>.\<close>

definition escapeByte :: "char \<Rightarrow> string" where
  "escapeByte b =
     (if b = BSL \<or> b = DQ then [BSL, b]
      else if b = CHR 0x08 then [BSL, CHR ''b'']
      else if b = CHR 0x0C then [BSL, CHR ''f'']
      else if b = NL then [BSL, CHR ''n'']
      else if b = CR then [BSL, CHR ''r'']
      else if b = CHR 0x09 then [BSL, CHR ''t'']
      else [BSL, CHR ''u'', CHR ''0'', CHR ''0'',
            hex (of_char b div 16), hex (of_char b mod 16)])"

definition RuneError :: nat where "RuneError = 0xFFFD"

text \<open>\<^verbatim>\<open>utf8.DecodeRuneInString\<close>: the code point and the number of bytes it takes;
  \<open>(RuneError, 1)\<close> for a byte that starts no valid encoding.\<close>

fun DecodeRuneInString :: "string \<Rightarrow> nat \<times> nat" where
  "DecodeRuneInString [] = (RuneError, 0)"
| "DecodeRuneInString (c0 # cs) =
     (let s0 = (of_char c0 :: nat) in
      if s0 < 0x80 then (s0, 1)
      else if s0 < 0xC2 \<or> 0xF4 < s0 then (RuneError, 1)
      else
        (let sz = (if s0 < 0xE0 then 2 else if s0 < 0xF0 then 3 else 4 :: nat);
             lo = (if s0 = 0xE0 then 0xA0 else if s0 = 0xF0 then 0x90 else 0x80 :: nat);
             hi = (if s0 = 0xED then 0x9F else if s0 = 0xF4 then 0x8F else 0xBF :: nat)
         in if Suc (length cs) < sz then (RuneError, 1)
            else
              (let s1 = (of_char (cs ! 0) :: nat) in
               if s1 < lo \<or> hi < s1 then (RuneError, 1)
               else if sz \<le> 2 then ((s0 mod 32) * 64 + s1 mod 64, 2)
               else
                 (let s2 = (of_char (cs ! 1) :: nat) in
                  if s2 < 0x80 \<or> 0xBF < s2 then (RuneError, 1)
                  else if sz \<le> 3 then ((s0 mod 16) * 4096 + (s1 mod 64) * 64 + s2 mod 64, 3)
                  else
                    (let s3 = (of_char (cs ! 2) :: nat) in
                     if s3 < 0x80 \<or> 0xBF < s3 then (RuneError, 1)
                     else ((s0 mod 8) * 262144 + (s1 mod 64) * 4096 + (s2 mod 64) * 64
                             + s3 mod 64, 4))))))"

lemma DecodeRuneInString_size:
  "DecodeRuneInString (c # cs) = (r, n) \<Longrightarrow> 1 \<le> n \<and> n \<le> Suc (length cs)"
  by (auto simp add: Let_def Suc_le_eq split: if_splits)

declare DecodeRuneInString.simps(2) [simp del]

text \<open>The loop of \<^verbatim>\<open>appendString\<close>, without the two quotes around the result.\<close>

function encodeBody :: "string \<Rightarrow> string" where
  "encodeBody [] = []"
| "encodeBody (b # bs) =
     (if (of_char b :: nat) < 0x80 then
        (if htmlSafe b then [b] else escapeByte b) @ encodeBody bs
      else
        (case DecodeRuneInString (b # bs) of (c, n) \<Rightarrow>
           if c = RuneError \<and> n = 1 then
             [BSL, CHR ''u'', CHR ''f'', CHR ''f'', CHR ''f'', CHR ''d''] @ encodeBody bs
           else if c = 0x2028 \<or> c = 0x2029 then
             [BSL, CHR ''u'', CHR ''2'', CHR ''0'', CHR ''2'', hex (c mod 16)]
               @ encodeBody (drop n (b # bs))
           else take n (b # bs) @ encodeBody (drop n (b # bs))))"
  by pat_completeness auto
termination
  by (relation "measure length") (auto dest!: DecodeRuneInString_size [OF sym])

declare encodeBody.simps(2) [simp del]

definition appendString :: "string \<Rightarrow> string" where
  "appendString src = DQ # encodeBody src @ [DQ]"

text \<open>\<^verbatim>\<open>strings.Join\<close>.\<close>

fun Join :: "string list \<Rightarrow> string \<Rightarrow> string" where
  "Join [] sep = []"
| "Join [x] sep = x"
| "Join (x # y # ys) sep = x @ sep @ Join (y # ys) sep"

text \<open>The entries of a map in the order in which the encoder writes them: sorted by key.\<close>

definition sortedEntries :: "recordMap \<Rightarrow> (string \<times> string) list" where
  "sortedEntries m = sort_key fst m"

definition Marshal :: "recordMap \<Rightarrow> string" where
  "Marshal m =
     ''{'' @ Join (map (\<lambda>(k, v). appendString k @ '':'' @ appendString v) (sortedEntries m)) '',''
       @ ''}''"

text \<open>
  \<^verbatim>\<open>json.MarshalIndent\<close> re-indents the output of \<^verbatim>\<open>Marshal\<close>: an empty object stays
  \<^verbatim>\<open>{}\<close>; otherwise every member starts on a new line made of the prefix and one copy of
  the indent, a space follows each colon, and the closing brace is on a new line with the
  prefix only.
\<close>

definition MarshalIndent :: "recordMap \<Rightarrow> string \<Rightarrow> string \<Rightarrow> string" where
  "MarshalIndent m prefix indent =
     (if m = [] then ''{}''
      else ''{'' @ [NL] @ prefix @ indent
             @ Join (map (\<lambda>(k, v). appendString k @ '': '' @ appendString v) (sortedEntries m))
                    ('','' @ [NL] @ prefix @ indent)
             @ [NL] @ prefix @ ''}'')"

section \<open>The writer: \<^verbatim>\<open>createStringWriter\<close>, \<^verbatim>\<open>getJSONFunc\<close>, \<^verbatim>\<open>writeJSONFile\<close>\<close>

text \<open>
  Path functions of \<^verbatim>\<open>path/filepath\<close> and \<^verbatim>\<open>strings\<close> on a Unix system (separator
  \<^verbatim>\<open>/\<close>, no volume names).
\<close>

definition SL :: char where "SL = CHR ''/''"

text \<open>\<^verbatim>\<open>filepath.Ext\<close> scans backwards from the end of the path for a dot and stops at a
  separator; \<open>ExtFrom\<close> is that loop on the reversed path, \<open>acc\<close> the bytes passed.\<close>

fun ExtFrom :: "string \<Rightarrow> string \<Rightarrow> string" where
  "ExtFrom [] acc = []"
| "ExtFrom (c # cs) acc =
     (if c = SL then [] else if c = CHR ''.'' then c # acc else ExtFrom cs (c # acc))"

definition Ext :: "string \<Rightarrow> string" where
  "Ext path = ExtFrom (rev path) []"

text \<open>\<^verbatim>\<open>filepath.Base\<close>.\<close>

definition Base :: "string \<Rightarrow> string" where
  "Base path =
     (if path = [] then ''.''
      else
        (let stripped = rev (dropWhile (\<lambda>c. c = SL) (rev path));
             elem = rev (takeWhile (\<lambda>c. c \<noteq> SL) (rev stripped))
         in if elem = [] then [SL] else elem))"

text \<open>
  \<^verbatim>\<open>filepath.Clean\<close>.  \<open>backtrack\<close> is the inner loop that removes the last element of
  the output buffer down to \<open>dotdot\<close>; \<open>cleanLoop\<close> is the main loop over the unread
  part of the path, with the output buffer \<open>out\<close> (its length is the write index).
\<close>

function backtrack :: "string \<Rightarrow> nat \<Rightarrow> nat \<Rightarrow> nat" where
  "backtrack out w dotdot =
     (if w > dotdot \<and> out ! w \<noteq> SL then backtrack out (w - 1) dotdot else w)"
  by pat_completeness auto
termination
  by (relation "measure (\<lambda>(out, w, dotdot). w)") auto

declare backtrack.simps [simp del]

function cleanLoop :: "bool \<Rightarrow> string \<Rightarrow> string \<Rightarrow> nat \<Rightarrow> string" where
  "cleanLoop rooted [] out dotdot = out"
| "cleanLoop rooted (c # cs) out dotdot =
     (if c = SL then cleanLoop rooted cs out dotdot
      else if c = CHR ''.'' \<and> (cs = [] \<or> hd cs = SL) then cleanLoop rooted cs out dotdot
      else if c = CHR ''.'' \<and> hd cs = CHR ''.'' \<and> (tl cs = [] \<or> hd (tl cs) = SL) then
        (if length out > dotdot then
           cleanLoop rooted (tl cs) (take (backtrack out (length out - 1) dotdot) out) dotdot
         else if \<not> rooted then
           (let out' = (if out \<noteq> [] then out @ [SL] else out) @ ''..''
            in cleanLoop rooted (tl cs) out' (length out'))
         else cleanLoop rooted (tl cs) out dotdot)
      else
        (let out' = (if rooted \<and> length out \<noteq> 1 \<or> \<not> rooted \<and> length out \<noteq> 0
                     then out @ [SL] else out)
         in cleanLoop rooted (dropWhile (\<lambda>x. x \<noteq> SL) (c # cs))
                      (out' @ takeWhile (\<lambda>x. x \<noteq> SL) (c # cs)) dotdot))"
  by pat_completeness auto
termination
  by (relation "measure (\<lambda>(rooted, path, out, dotdot). length path)")
     (auto simp add: less_Suc_eq_le length_dropWhile_le)

declare cleanLoop.simps(2) [simp del]

definition Clean :: "string \<Rightarrow> string" where
  "Clean path =
     (if path = [] then ''.''
      else
        (let rooted = (hd path = SL);
             out = (if rooted then cleanLoop True (tl path) [SL] 1
                    else cleanLoop False path [] 0)
         in if out = [] then ''.'' else out))"

text \<open>\<^verbatim>\<open>filepath.Dir\<close>: \<^verbatim>\<open>Clean\<close> of the path up to and including its last separator.\<close>

definition Dir :: "string \<Rightarrow> string" where
  "Dir path = Clean (rev (dropWhile (\<lambda>c. c \<noteq> SL) (rev path)))"

text \<open>\<^verbatim>\<open>strings.HasSuffix\<close> and \<^verbatim>\<open>strings.TrimSuffix\<close>.\<close>

definition HasSuffix :: "string \<Rightarrow> string \<Rightarrow> bool" where
  "HasSuffix s suffix \<longleftrightarrow>
     length s \<ge> length suffix \<and> drop (length s - length suffix) s = suffix"

definition TrimSuffix :: "string \<Rightarrow> string \<Rightarrow> string" where
  "TrimSuffix s suffix =
     (if HasSuffix s suffix then take (length s - length suffix) s else s)"

text \<open>
  The output file: where it is, the arguments \<open>(data, close)\<close> of each call of the
  closure returned by \<^verbatim>\<open>createStringWriter\<close> so far, and whether the file has been
  closed.  \<^verbatim>\<open>os.Create\<close> and \<^verbatim>\<open>WriteString\<close> are taken to succeed.  The bytes in the
  file are the data of the calls, one after the other.
\<close>

record sink =
  location :: string
  writes :: "(string \<times> bool) list"
  closed :: bool

definition content :: "sink \<Rightarrow> string" where
  "content f = concat (map fst (writes f))"

text \<open>The path computed by \<^verbatim>\<open>createStringWriter\<close> (\<^verbatim>\<open>finalLocation\<close>).\<close>

definition finalLocation :: "string \<Rightarrow> string" where
  "finalLocation csvPath =
     (let jsonDir = Dir csvPath;
          jsonName = TrimSuffix (Base csvPath) ''.csv'' @ ''.json''
      in jsonDir @ ''/'' @ jsonName)"

definition createStringWriter :: "string \<Rightarrow> sink" where
  "createStringWriter csvPath = \<lparr>location = finalLocation csvPath, writes = [], closed = False\<rparr>"

text \<open>The closure returned by \<^verbatim>\<open>createStringWriter\<close>, applied to the file it holds.\<close>

definition writeString :: "string \<Rightarrow> bool \<Rightarrow> sink \<Rightarrow> sink" where
  "writeString data close f =
     f\<lparr>writes := writes f @ [(data, close)], closed := (if close then True else closed f)\<rparr>"

definition jsonFunc :: "bool \<Rightarrow> recordMap \<Rightarrow> string" where
  "jsonFunc indented record =
     (if indented then ''   '' @ MarshalIndent record ''   '' ''   '' else Marshal record)"

definition breakLine :: "bool \<Rightarrow> string" where
  "breakLine indented = (if indented then [NL] else [])"

definition getJSONFunc :: "bool \<Rightarrow> (recordMap \<Rightarrow> string) \<times> string" where
  "getJSONFunc indented = (jsonFunc indented, breakLine indented)"

text \<open>
  The state of the loop of \<^verbatim>\<open>writeJSONFile\<close>: the flag \<^verbatim>\<open>first\<close>, the output file, and
  whether the loop has been left (after \<^verbatim>\<open>done <- true\<close> and \<^verbatim>\<open>break\<close>).  One pass
  through the loop body receives \<open>Some record\<close> (\<^verbatim>\<open>more\<close> is true) or \<open>None\<close> (the
  channel is closed); once the loop has been left nothing is received any more.
\<close>

record writer =
  first :: bool
  outFile :: sink
  finished :: bool

definition writerStep :: "(recordMap \<Rightarrow> string) \<Rightarrow> string \<Rightarrow> recordMap option \<Rightarrow> writer \<Rightarrow> writer" where
  "writerStep jsonF brk received w =
     (if finished w then w
      else
        (case received of
           Some record \<Rightarrow>
             (let w1 = (if \<not> first w then w\<lparr>outFile := writeString ('','' @ brk) False (outFile w)\<rparr>
                        else w\<lparr>first := False\<rparr>)
              in w1\<lparr>outFile := writeString (jsonF record) False (outFile w1)\<rparr>)
         | None \<Rightarrow> w\<lparr>outFile := writeString (brk @ '']'') True (outFile w), finished := True\<rparr>))"

text \<open>The loop on a channel that delivers the given records and is then closed.\<close>

fun writerLoop :: "(recordMap \<Rightarrow> string) \<Rightarrow> string \<Rightarrow> recordMap list \<Rightarrow> writer \<Rightarrow> writer" where
  "writerLoop jsonF brk [] w = writerStep jsonF brk None w"
| "writerLoop jsonF brk (record # channel) w =
     writerLoop jsonF brk channel (writerStep jsonF brk (Some record) w)"

definition writerStart :: "string \<Rightarrow> bool \<Rightarrow> writer" where
  "writerStart csvPath indented =
     (case getJSONFunc indented of (jsonF, brk) \<Rightarrow>
        \<lparr>first = True,
         outFile = writeString (''['' @ brk) False (createStringWriter csvPath),
         finished = False\<rparr>)"

definition writeJSONFile :: "string \<Rightarrow> recordMap list \<Rightarrow> bool \<Rightarrow> writer" where
  "writeJSONFile csvPath writerChannel indented =
     (case getJSONFunc indented of (jsonF, brk) \<Rightarrow>
        writerLoop jsonF brk writerChannel (writerStart csvPath indented))"

section \<open>The command line and \<^verbatim>\<open>main\<close>\<close>

text \<open>
  What \<^verbatim>\<open>getFileData\<close> reads: the length of \<^verbatim>\<open>os.Args\<close> and, after \<^verbatim>\<open>flag.Parse\<close>, the
  values of the two flags and \<^verbatim>\<open>flag.Arg(0)\<close> (empty when there is no argument).  A
  command line that \<^verbatim>\<open>flag.Parse\<close> itself rejects never reaches the code below.
\<close>

record cmdline =
  argc :: nat
  separatorFlag :: string
  prettyFlag :: bool
  arg0 :: string

definition getFileData :: "cmdline \<Rightarrow> error + inputFile" where
  "getFileData cl =
     (if argc cl < 2 then Inl FilepathRequired
      else if \<not> (separatorFlag cl = ''comma'' \<or> separatorFlag cl = ''semicolon'')
      then Inl SeparatorNotAllowed
      else Inr \<lparr>filepath = arg0 cl, separator = separatorFlag cl, pretty = prettyFlag cl\<rparr>)"

definition checkIfValidFile :: "filesys \<Rightarrow> string \<Rightarrow> error + bool" where
  "checkIfValidFile fs filename =
     (if Ext filename \<noteq> ''.csv'' then Inl (NotCSV filename)
      else if fs filename = NotExist then Inl (DoesNotExist filename)
      else Inr True)"

text \<open>
  How a run ends.  \<open>ExitBeforeStart\<close>: \<^verbatim>\<open>exitGracefully\<close> is called in \<^verbatim>\<open>main\<close> before the
  two goroutines are started, so \<^verbatim>\<open>createStringWriter\<close> has not run.
  \<open>ExitInReader\<close>: \<^verbatim>\<open>exitGracefully\<close> is called in \<^verbatim>\<open>processCsvFile\<close> after the given
  records were handed over; the writer is stopped wherever it is, before it receives the
  closing of the channel.  \<open>Completed\<close>: the channel was closed, the writer finished and
  \<^verbatim>\<open>main\<close> returned; the lines reported as skipped are kept beside the writer's state.
\<close>

datatype outcome =
    ExitBeforeStart error
  | ExitInReader error "recordMap list"
  | Completed writer "(string list \<times> error) list"

fun exitStatus :: "outcome \<Rightarrow> nat" where
  "exitStatus (ExitBeforeStart e) = 1"
| "exitStatus (ExitInReader e rs) = 1"
| "exitStatus (Completed w ps) = 0"

fun writerStarted :: "outcome \<Rightarrow> bool" where
  "writerStarted (ExitBeforeStart e) = False"
| "writerStarted (ExitInReader e rs) = True"
| "writerStarted (Completed w ps) = True"

text \<open>
  The two goroutines joined by the channel, and \<^verbatim>\<open><-done\<close>.  The channel is unbuffered
  with one sender and one receiver, so the writer receives the records in the order in
  which the reader sends them and sees the channel closed after the last one; the
  writer's part of a completed run is therefore \<open>writeJSONFile\<close> on the list of records
  sent.  What the status lines printed by the two goroutines look like on the terminal is
  not part of the model.
\<close>

definition pipeline :: "filesys \<Rightarrow> inputFile \<Rightarrow> outcome" where
  "pipeline fs fileData =
     (let run = processCsvFile fs fileData in
      case fatal run of
        Some e \<Rightarrow> ExitInReader e (sent run)
      | None \<Rightarrow> Completed (writeJSONFile (filepath fileData) (sent run) (pretty fileData))
                          (printed run))"

definition main :: "filesys \<Rightarrow> cmdline \<Rightarrow> outcome" where
  "main fs cl =
     (case getFileData cl of
        Inl err \<Rightarrow> ExitBeforeStart err
      | Inr fileData \<Rightarrow>
          (case checkIfValidFile fs (filepath fileData) of
             Inl err \<Rightarrow> ExitBeforeStart err
           | Inr ok \<Rightarrow> pipeline fs fileData))"



text \<open>
  Two association lists that stand for the same Go map: the keys of each are distinct and
  both give the same value for every key.  They differ at most in the order of their
  entries, which is what the iteration order of a Go map may change from run to run.
\<close>

definition sameMap :: "recordMap \<Rightarrow> recordMap \<Rightarrow> bool" where
  "sameMap m1 m2 \<longleftrightarrow> distinct (map fst m1) \<and> distinct (map fst m2) \<and> map_of m1 = map_of m2"

text \<open>
  To say that two texts differ only in whitespace: \<open>stripSpace\<close> removes the JSON
  whitespace characters (space, tab, newline, carriage return) that stand outside string
  literals and keeps every other byte.  The scanner state tells whether the position is
  outside a string, inside one, or just after a backslash inside one.
\<close>

datatype scan = Outside | InString | AfterBackslash

definition isSpace :: "char \<Rightarrow> bool" where
  "isSpace c \<longleftrightarrow> c = CHR '' '' \<or> c = CHR 0x09 \<or> c = NL \<or> c = CR"

fun stripSpace :: "scan \<Rightarrow> string \<Rightarrow> string" where
  "stripSpace st [] = []"
| "stripSpace Outside (c # cs) =
     (if c = DQ then c # stripSpace InString cs
      else if isSpace c then stripSpace Outside cs
      else c # stripSpace Outside cs)"
| "stripSpace InString (c # cs) =
     (if c = BSL then c # stripSpace AfterBackslash cs
      else if c = DQ then c # stripSpace Outside cs
      else c # stripSpace InString cs)"
| "stripSpace AfterBackslash (c # cs) = c # stripSpace InString cs"

section \<open>Runs of the two goroutines\<close>

text \<open>
  \<^verbatim>\<open>main\<close> starts \<^verbatim>\<open>processCsvFile\<close> and \<^verbatim>\<open>writeJSONFile\<close> as goroutines and waits
  on \<^verbatim>\<open>done\<close>.  The two run side by side and meet only at the channel, and
  \<^verbatim>\<open>exitGracefully\<close> in the reader calls \<^verbatim>\<open>os.Exit(1)\<close> wherever the writer happens to be.
  To speak about what may differ between two runs, the positions of both goroutines are
  made explicit and a run is a sequence of steps of either.

  The reader reads its file alone, so what it does is given by \<open>processCsvFile\<close>: the
  records it sends, in order, and how it ends.  Its position \<open>AtSend ms e\<close> says that the
  records \<open>ms\<close> are still to be sent and that it will then close the channel and return
  (\<open>e = None\<close>) or call \<^verbatim>\<open>exitGracefully\<close> (\<open>e = Some err\<close>); \<open>Returned\<close> says that the
  channel is closed.

  The positions of the writer follow the body of \<^verbatim>\<open>writeJSONFile\<close>: before
  \<^verbatim>\<open>createStringWriter\<close>; before the write of the opening bracket; at the receive
  \<^verbatim>\<open><-writerChannel\<close>; with a record received, before the test of \<^verbatim>\<open>first\<close>; before the
  write of the record's text; with the closing of the channel received, before the write
  of the closing bracket; at \<^verbatim>\<open>done <- true\<close>.
\<close>

datatype rpc = AtSend "recordMap list" "error option" | Returned

datatype wpc =
    AtCreate | AtOpenBracket | AtReceive | AtSeparator recordMap | AtObject recordMap
  | AtCloseBracket | AtDone

text \<open>
  The state of the process: the two positions, the variable \<^verbatim>\<open>first\<close>, and the output
  file, which does not exist before \<^verbatim>\<open>os.Create\<close>.  What can be seen of a run once the
  process has ended: the exit status and the output file as it was left.
\<close>

datatype state = State rpc wpc bool "sink option"

datatype observation = Exited nat "sink option"

text \<open>
  One step of one goroutine.  The channel is unbuffered, so a send and the receive that
  takes it are one step of both (\<open>handOver\<close>); the record is a Go map, and the writer may
  meet its entries in any order, so it receives any association list that stands for the
  same map.  The writer sees the channel closed only when it is at the receive and the
  reader has returned (\<open>seeClosed\<close>).  All other steps are the writer's own statements.
\<close>

inductive step :: "string \<Rightarrow> bool \<Rightarrow> state \<Rightarrow> state \<Rightarrow> bool"
  for csvPath :: string and indented :: bool
where
  create:
    "step csvPath indented (State r AtCreate fl None)
       (State r AtOpenBracket fl (Some (createStringWriter csvPath)))"
| openBracket:
    "step csvPath indented (State r AtOpenBracket fl (Some f))
       (State r AtReceive True (Some (writeString (''['' @ breakLine indented) False f)))"
| handOver:
    "sameMap m m' \<Longrightarrow>
     step csvPath indented (State (AtSend (m # ms) e) AtReceive fl d)
       (State (AtSend ms e) (AtSeparator m') fl d)"
| closeChannel:
    "step csvPath indented (State (AtSend [] None) w fl d) (State Returned w fl d)"
| seeClosed:
    "step csvPath indented (State Returned AtReceive fl d) (State Returned AtCloseBracket fl d)"
| separatorFirst:
    "step csvPath indented (State r (AtSeparator m) True d) (State r (AtObject m) False d)"
| separatorLater:
    "step csvPath indented (State r (AtSeparator m) False (Some f))
       (State r (AtObject m) False (Some (writeString ('','' @ breakLine indented) False f)))"
| object:
    "step csvPath indented (State r (AtObject m) False (Some f))
       (State r AtReceive False (Some (writeString (jsonFunc indented m) False f)))"
| closeBracket:
    "step csvPath indented (State r AtCloseBracket fl (Some f))
       (State r AtDone fl (Some (writeString (breakLine indented @ '']'') True f)))"

text \<open>
  How a run from a state may end.  When the reader has nothing left to send and ends in
  an error, \<^verbatim>\<open>os.Exit(1)\<close> ends the process at once, with the file as the writer has
  left it so far.  When the writer is at \<^verbatim>\<open>done <- true\<close>, \<^verbatim>\<open>main\<close> receives and returns,
  and the process ends with status 0.
\<close>

inductive leads :: "string \<Rightarrow> bool \<Rightarrow> state \<Rightarrow> observation \<Rightarrow> bool"
  for csvPath :: string and indented :: bool
where
  exitInReader: "leads csvPath indented (State (AtSend [] (Some e)) w fl d) (Exited 1 d)"
| mainReturns: "leads csvPath indented (State r AtDone fl d) (Exited 0 d)"
| further:
    "step csvPath indented s s' \<Longrightarrow> leads csvPath indented s' obs \<Longrightarrow>
     leads csvPath indented s obs"

text \<open>
  The runs of the program on a file system and a command line.  The first two rules are
  the two calls of \<^verbatim>\<open>exitGracefully\<close> in \<^verbatim>\<open>main\<close>, before anything is started; the third
  starts both goroutines at their beginning.
\<close>

inductive programRun :: "filesys \<Rightarrow> cmdline \<Rightarrow> observation \<Rightarrow> bool" where
  badArguments: "getFileData cl = Inl err \<Longrightarrow> programRun fs cl (Exited 1 None)"
| badFile:
    "getFileData cl = Inr fileData \<Longrightarrow> checkIfValidFile fs (filepath fileData) = Inl err \<Longrightarrow>
     programRun fs cl (Exited 1 None)"
| goroutines:
    "getFileData cl = Inr fileData \<Longrightarrow> checkIfValidFile fs (filepath fileData) = Inr ok \<Longrightarrow>
     leads (filepath fileData) (pretty fileData)
       (State (AtSend (sent (processCsvFile fs fileData)) (fatal (processCsvFile fs fileData)))
              AtCreate True None) obs \<Longrightarrow>
     programRun fs cl obs"

text \<open>Whether \<open>main\<close> ends in the reader's call of \<^verbatim>\<open>exitGracefully\<close>.\<close>

fun exitsInReader :: "outcome \<Rightarrow> bool" where
  "exitsInReader (ExitBeforeStart e) = False"
| "exitsInReader (ExitInReader e rs) = True"
| "exitsInReader (Completed w ps) = False"

text \<open>A file system that holds one regular file.\<close>

definition oneFile :: "string \<Rightarrow> string \<Rightarrow> filesys" where
  "oneFile name bytes p = (if p = name then Regular bytes else NotExist)"

text \<open>
  To follow a run: how the reader of a state will end, where its writer is, and the file
  that the writer leaves if it is allowed to go on to its end from the state, which is
  what the loop of \<open>writeJSONFile\<close> makes of the records not yet written.
\<close>

fun readerEnd :: "rpc \<Rightarrow> error option" where
  "readerEnd (AtSend ms e) = e"
| "readerEnd Returned = None"

fun ending :: "state \<Rightarrow> error option" where
  "ending (State r w fl d) = readerEnd r"

fun unsent :: "rpc \<Rightarrow> recordMap list" where
  "unsent (AtSend ms e) = ms"
| "unsent Returned = []"

fun writerAt :: "state \<Rightarrow> wpc" where
  "writerAt (State r w fl d) = w"

definition loopFrom :: "bool \<Rightarrow> recordMap list \<Rightarrow> bool \<Rightarrow> sink \<Rightarrow> sink" where
  "loopFrom indented ms fl f =
     outFile (writerLoop (jsonFunc indented) (breakLine indented) ms
                \<lparr>first = fl, outFile = f, finished = False\<rparr>)"

fun finish :: "string \<Rightarrow> bool \<Rightarrow> state \<Rightarrow> sink option" where
  "finish csvPath indented (State r AtCreate fl d) =
     Some (outFile (writeJSONFile csvPath (unsent r) indented))"
| "finish csvPath indented (State r AtOpenBracket fl d) =
     map_option (\<lambda>f. loopFrom indented (unsent r) True
                        (writeString (''['' @ breakLine indented) False f)) d"
| "finish csvPath indented (State r AtReceive fl d) =
     map_option (loopFrom indented (unsent r) fl) d"
| "finish csvPath indented (State r (AtSeparator m) fl d) =
     map_option (loopFrom indented (m # unsent r) fl) d"
| "finish csvPath indented (State r (AtObject m) fl d) =
     map_option (\<lambda>f. loopFrom indented (unsent r) False
                        (writeString (jsonFunc indented m) False f)) d"
| "finish csvPath indented (State r AtCloseBracket fl d) =
     map_option (writeString (breakLine indented @ '']'') True) d"
| "finish csvPath indented (State r AtDone fl d) = d"

section \<open>Properties of \<^verbatim>\<open>processLine\<close>\<close>

lemma fold_update_distinct:
  "distinct (map fst m) \<Longrightarrow>
   distinct (map fst (fold (\<lambda>(name, d) recordMap. AList.update name d recordMap) kvs m))"
  by (induction kvs arbitrary: m) (auto simp add: distinct_update)

lemma fold_update_keys:
  "fst ` set (fold (\<lambda>(name, d) recordMap. AList.update name d recordMap) kvs m)
     = fst ` set m \<union> fst ` set kvs"
proof (induction kvs arbitrary: m)
  case Nil
  show ?case by simp
next
  case (Cons kv kvs)
  obtain k v where kv: "kv = (k, v)" by (cases kv)
  have "set (map fst (AList.update k v m)) = insert k (set (map fst m))"
    by (simp only: update_keys) (auto simp add: image_iff)
  then have "fst ` set (AList.update k v m) = insert k (fst ` set m)"
    by (simp only: set_map)
  with Cons.IH [of "AList.update k v m"] kv show ?case by auto
qed

lemma fold_update_other:
  "k \<notin> fst ` set kvs \<Longrightarrow>
   map_of (fold (\<lambda>(name, d) recordMap. AList.update name d recordMap) kvs m) k = map_of m k"
  by (induction kvs arbitrary: m) (auto simp add: update_conv')

lemma fold_update_last:
  assumes "length hs = length ds" and "i < length hs"
    and "\<forall>j. i < j \<and> j < length hs \<longrightarrow> hs ! j \<noteq> hs ! i"
  shows "map_of (fold (\<lambda>(name, d) recordMap. AList.update name d recordMap) (zip hs ds) m) (hs ! i)
           = Some (ds ! i)"
  using assms
proof (induction hs ds arbitrary: m i rule: list_induct2)
  case Nil
  then show ?case by simp
next
  case (Cons h hs d ds)
  show ?case
  proof (cases i)
    case 0
    have "h \<notin> set hs"
    proof
      assume "h \<in> set hs"
      then obtain j where "j < length hs" "hs ! j = h" by (auto simp add: in_set_conv_nth)
      with Cons.prems(2) [rule_format, of "Suc j"] 0 show False by simp
    qed
    then have "h \<notin> fst ` set (zip hs ds)"
      by (auto dest: set_zip_leftD)
    with 0 show ?thesis by (simp add: fold_update_other update_conv')
  next
    case (Suc i')
    with Cons.prems have "i' < length hs" by simp
    moreover have "\<forall>j. i' < j \<and> j < length hs \<longrightarrow> hs ! j \<noteq> hs ! i'"
    proof (intro allI impI)
      fix j assume "i' < j \<and> j < length hs"
      with Cons.prems(2) [rule_format, of "Suc j"] Suc show "hs ! j \<noteq> hs ! i'" by simp
    qed
    ultimately show ?thesis using Cons.IH [of i' "AList.update h d m"] Suc by simp
  qed
qed

lemma processLine_Inr:
  "processLine headers dataList = Inr r \<longleftrightarrow>
     length dataList = length headers \<and>
     r = fold (\<lambda>(name, d) recordMap. AList.update name d recordMap) (zip headers dataList) []"
  by (auto simp add: processLine_def)

lemma processLine_keys:
  assumes "processLine headers dataList = Inr r"
  shows "distinct (map fst r)" and "set (map fst r) = set headers"
proof -
  from assms have len: "length dataList = length headers"
    and r: "r = fold (\<lambda>(name, d) recordMap. AList.update name d recordMap) (zip headers dataList) []"
    by (simp_all add: processLine_Inr)
  from r show "distinct (map fst r)" by (simp add: fold_update_distinct)
  from len have "map fst (zip headers dataList) = headers" by simp
  then have "set (map fst (zip headers dataList)) = set headers" by (simp only:)
  then have "fst ` set (zip headers dataList) = set headers" by (simp only: set_map)
  with r show "set (map fst r) = set headers" by (simp add: fold_update_keys)
qed

lemma processLine_length:
  assumes "processLine headers dataList = Inr r"
  shows "length r = card (set headers)"
proof -
  have "length r = length (map fst r)" by simp
  also have "\<dots> = card (set (map fst r))"
    using processLine_keys(1) [OF assms] by (simp only: distinct_card)
  finally show ?thesis using processLine_keys(2) [OF assms] by simp
qed

text \<open>
  C10: if the header has a repeated name, a line with as many fields as the header is still
  accepted, but the record holds fewer key/value pairs than the header has fields (and so
  does the object written for it): its keys are the header names, each once, and a name
  has the value of the field at its last position in the header.
\<close>

theorem processLine_duplicate_headers:
  assumes "length dataList = length headers" and "\<not> distinct headers"
  shows "\<exists>r. processLine headers dataList = Inr r
             \<and> length r < length headers
             \<and> length (sortedEntries r) < length headers
             \<and> set (map fst r) = set headers
             \<and> (\<forall>i < length headers.
                   (\<forall>j. i < j \<and> j < length headers \<longrightarrow> headers ! j \<noteq> headers ! i)
                     \<longrightarrow> map_of r (headers ! i) = Some (dataList ! i))"
proof -
  define r where "r = fold (\<lambda>(name, d) recordMap. AList.update name d recordMap) (zip headers dataList) []"
  with assms(1) have ok: "processLine headers dataList = Inr r"
    by (simp add: processLine_Inr)
  have "card (set headers) \<le> length headers" by (rule card_length)
  moreover have "card (set headers) \<noteq> length headers"
    using assms(2) card_distinct by blast
  ultimately have "card (set headers) < length headers" by simp
  with processLine_length [OF ok] have short: "length r < length headers" by simp
  have last: "\<forall>i < length headers.
                   (\<forall>j. i < j \<and> j < length headers \<longrightarrow> headers ! j \<noteq> headers ! i)
                     \<longrightarrow> map_of r (headers ! i) = Some (dataList ! i)"
    unfolding r_def using assms(1) by (auto intro!: fold_update_last)
  from ok short last processLine_keys(2) [OF ok] show ?thesis
    by (auto simp add: sortedEntries_def)
qed

theorem processLine_duplicate_headers_witness:
  "\<exists>r. processLine [''a'', ''b'', ''a''] [''1'', ''2'', ''3''] = Inr r
       \<and> length r < 3 \<and> map_of r ''a'' = Some ''3'' \<and> map_of r ''b'' = Some ''2''"
proof -
  have len: "length [''1'', ''2'', ''3''] = length [''a'', ''b'', ''a'']" by simp
  have dup: "\<not> distinct [''a'', ''b'', ''a'']" by simp
  from processLine_duplicate_headers [OF len dup] obtain r where
    ok: "processLine [''a'', ''b'', ''a''] [''1'', ''2'', ''3''] = Inr r"
    and short: "length r < length [''a'', ''b'', ''a'']"
    by blast
  from ok have "r = [(''a'', ''3''), (''b'', ''2'')]"
    by (simp add: processLine_def)
  with ok short show ?thesis by simp
qed

section \<open>Properties of the writer\<close>

lemma Join_Cons: "Join (x # xs) sep = x @ concat (map (\<lambda>y. sep @ y) xs)"
  by (induction xs arbitrary: x) auto

lemma writerStep_first:
  "\<not> finished w \<Longrightarrow> first w \<Longrightarrow>
   writerStep jsonF brk (Some r) w
     = w\<lparr>first := False, outFile := writeString (jsonF r) False (outFile w)\<rparr>"
  by (simp add: writerStep_def)

lemma writerStep_later:
  "\<not> finished w \<Longrightarrow> \<not> first w \<Longrightarrow>
   writerStep jsonF brk (Some r) w
     = w\<lparr>outFile := writeString (jsonF r) False (writeString ('','' @ brk) False (outFile w))\<rparr>"
  by (simp add: writerStep_def)

lemma writerStep_close:
  "\<not> finished w \<Longrightarrow>
   writerStep jsonF brk None w
     = w\<lparr>outFile := writeString (brk @ '']'') True (outFile w), finished := True\<rparr>"
  by (simp add: writerStep_def)

lemma writerStep_finished: "finished w \<Longrightarrow> writerStep jsonF brk received w = w"
  by (simp add: writerStep_def)

lemma writerLoop_later:
  "\<not> finished w \<Longrightarrow> \<not> first w \<Longrightarrow>
   writerLoop jsonF brk rs w
     = w\<lparr>outFile := (outFile w)
            \<lparr>writes := writes (outFile w)
                 @ concat (map (\<lambda>r. [('','' @ brk, False), (jsonF r, False)]) rs)
                 @ [(brk @ '']'', True)],
              closed := True\<rparr>,
          finished := True\<rparr>"
proof (induction rs arbitrary: w)
  case Nil
  then show ?case by (simp add: writerStep_close writeString_def)
next
  case (Cons r rs)
  let ?w = "writerStep jsonF brk (Some r) w"
  from Cons.prems have step: "?w = w\<lparr>outFile := writeString (jsonF r) False (writeString ('','' @ brk) False (outFile w))\<rparr>"
    by (rule writerStep_later)
  then have "\<not> finished ?w" "\<not> first ?w" using Cons.prems by simp_all
  from Cons.IH [OF this] step show ?case by (simp add: writeString_def)
qed

lemma writerLoop_first:
  assumes "\<not> finished w" and "first w"
  shows "writerLoop jsonF brk rs w
     = w\<lparr>first := (rs = []),
          outFile := (outFile w)
            \<lparr>writes := writes (outFile w)
                 @ (case rs of [] \<Rightarrow> []
                    | r # rs' \<Rightarrow> (jsonF r, False)
                        # concat (map (\<lambda>r. [('','' @ brk, False), (jsonF r, False)]) rs'))
                 @ [(brk @ '']'', True)],
              closed := True\<rparr>,
          finished := True\<rparr>"
proof (cases rs)
  case Nil
  with assms show ?thesis by (simp add: writerStep_close writeString_def)
next
  case (Cons r rs')
  let ?w = "writerStep jsonF brk (Some r) w"
  from assms have step: "?w = w\<lparr>first := False, outFile := writeString (jsonF r) False (outFile w)\<rparr>"
    by (rule writerStep_first)
  then have "\<not> finished ?w" "\<not> first ?w" using assms by simp_all
  from writerLoop_later [OF this, of jsonF brk rs'] step Cons show ?thesis
    by (simp add: writeString_def)
qed

lemma writerStart_simps:
  "first (writerStart csvPath indented) = True"
  "finished (writerStart csvPath indented) = False"
  "outFile (writerStart csvPath indented)
     = \<lparr>location = finalLocation csvPath, writes = [(''['' @ breakLine indented, False)], closed = False\<rparr>"
  by (simp_all add: writerStart_def getJSONFunc_def writeString_def createStringWriter_def)

lemma writeJSONFile_writes:
  "writes (outFile (writeJSONFile csvPath rs indented))
     = (''['' @ breakLine indented, False)
       # (case rs of [] \<Rightarrow> []
          | r # rs' \<Rightarrow> (jsonFunc indented r, False)
              # concat (map (\<lambda>r. [('','' @ breakLine indented, False), (jsonFunc indented r, False)]) rs'))
       @ [(breakLine indented @ '']'', True)]"
  and writeJSONFile_closed: "closed (outFile (writeJSONFile csvPath rs indented))"
  and writeJSONFile_finished: "finished (writeJSONFile csvPath rs indented)"
  and writeJSONFile_location:
    "location (outFile (writeJSONFile csvPath rs indented)) = finalLocation csvPath"
  by (simp_all add: writeJSONFile_def getJSONFunc_def writerLoop_first writerStart_simps)

lemma concat_seps:
  "concat (map fst (concat (map (\<lambda>r. [(sep, False), (f r, False)]) rs)))
     = concat (map (\<lambda>y. sep @ y) (map f rs))"
  by (induction rs) auto

lemma writeJSONFile_content:
  "content (outFile (writeJSONFile csvPath rs indented))
     = ''['' @ breakLine indented
         @ Join (map (jsonFunc indented) rs) ('','' @ breakLine indented)
         @ breakLine indented @ '']''"
proof (cases rs)
  case Nil
  then show ?thesis by (simp add: content_def writeJSONFile_writes)
next
  case (Cons r rs')
  then show ?thesis
    by (simp add: content_def writeJSONFile_writes Join_Cons concat_seps del: Join.simps)
qed


section \<open>Properties of the encoder\<close>

lemma sortedEntries_keys:
  "sorted (map fst (sortedEntries m))"
  "set (sortedEntries m) = set m"
  "distinct (map fst m) \<Longrightarrow> distinct (map fst (sortedEntries m))"
  by (simp_all add: sortedEntries_def sorted_sort_key distinct_map)

lemma same_map_set:
  assumes "distinct (map fst m1)" and "distinct (map fst m2)" and "map_of m1 = map_of m2"
  shows "set m1 = set m2"
proof -
  from assms(1) have "set m1 = {(k, v). map_of m1 k = Some v}" by (rule set_map_of_compr)
  also have "\<dots> = {(k, v). map_of m2 k = Some v}" by (simp only: assms(3))
  also from assms(2) have "\<dots> = set m2" by (rule set_map_of_compr [symmetric])
  finally show ?thesis .
qed

lemma sortedEntries_same_map:
  assumes "distinct (map fst m1)" and "distinct (map fst m2)" and "map_of m1 = map_of m2"
  shows "sortedEntries m1 = sortedEntries m2"
proof (rule map_sorted_distinct_set_unique [where f = fst])
  from assms have same: "set m1 = set m2" by (rule same_map_set)
  from assms(1) have "inj_on fst (set m1)" by (simp add: distinct_map)
  with same show "inj_on fst (set (sortedEntries m1) \<union> set (sortedEntries m2))"
    by (simp add: sortedEntries_keys)
  from same show "set (sortedEntries m1) = set (sortedEntries m2)"
    by (simp add: sortedEntries_keys)
qed (simp_all only: sortedEntries_keys assms)

lemma jsonFunc_same_map:
  assumes "distinct (map fst m1)" and "distinct (map fst m2)" and "map_of m1 = map_of m2"
  shows "jsonFunc indented m1 = jsonFunc indented m2"
proof -
  have s: "sortedEntries m1 = sortedEntries m2"
    using assms by (rule sortedEntries_same_map)
  from assms have "set m1 = set m2" by (rule same_map_set)
  then have "m1 = [] \<longleftrightarrow> m2 = []" by (simp only: set_empty [symmetric])
  with s show ?thesis by (simp add: jsonFunc_def Marshal_def MarshalIndent_def)
qed

lemma sortedEntries_by_keys:
  assumes "distinct (map fst m)"
  shows "sortedEntries m = map (\<lambda>k. (k, the (map_of m k))) (map fst (sortedEntries m))"
proof -
  have "\<forall>kv \<in> set (sortedEntries m). kv = (fst kv, the (map_of m (fst kv)))"
    using assms by (auto simp add: sortedEntries_keys)
  then have "map (\<lambda>kv. (fst kv, the (map_of m (fst kv)))) (sortedEntries m) = sortedEntries m"
    by (simp add: map_idI)
  then show ?thesis by (simp add: comp_def)
qed

lemma processLine_sorted_keys:
  assumes "processLine headers dataList = Inr r"
  shows "map fst (sortedEntries r) = sort (remdups headers)"
proof (rule sorted_distinct_set_unique)
  show "sorted (map fst (sortedEntries r))" by (rule sortedEntries_keys)
  show "distinct (map fst (sortedEntries r))"
    using processLine_keys(1) [OF assms] by (rule sortedEntries_keys)
  have "set (map fst (sortedEntries r)) = set (map fst r)"
    by (simp add: sortedEntries_keys)
  with processLine_keys(2) [OF assms]
  show "set (map fst (sortedEntries r)) = set (sort (remdups headers))" by simp
qed simp_all

text \<open>
  C9: the object written for a record lists its keys in sorted byte order, whatever the
  order of the header: the keys are the header names without repetitions, sorted and
  strictly increasing, and both the compact and the indented text are built from the
  names in that order.
\<close>

theorem object_keys_sorted:
  assumes "processLine headers dataList = Inr r"
  shows "map fst (sortedEntries r) = sort (remdups headers)
         \<and> sorted_wrt (<) (map fst (sortedEntries r))
         \<and> Marshal r
             = ''{'' @ Join (map (\<lambda>k. appendString k @ '':'' @ appendString (the (map_of r k)))
                                (sort (remdups headers))) '','' @ ''}''
         \<and> jsonFunc False r = Marshal r
         \<and> jsonFunc True r
             = (if r = [] then ''   {}''
                else ''   {'' @ [NL] @ ''      ''
                  @ Join (map (\<lambda>k. appendString k @ '': '' @ appendString (the (map_of r k)))
                              (sort (remdups headers))) ('','' @ [NL] @ ''      '')
                  @ [NL] @ ''   }'')"
proof -
  have keys: "map fst (sortedEntries r) = sort (remdups headers)"
    using assms by (rule processLine_sorted_keys)
  have strict: "sorted_wrt (<) (map fst (sortedEntries r))"
    by (simp only: keys) (simp add: strict_sorted_iff)
  have "sortedEntries r = map (\<lambda>k. (k, the (map_of r k))) (map fst (sortedEntries r))"
    using processLine_keys(1) [OF assms] by (rule sortedEntries_by_keys)
  then have entries: "sortedEntries r = map (\<lambda>k. (k, the (map_of r k))) (sort (remdups headers))"
    by (simp only: keys)
  have m: "Marshal r
             = ''{'' @ Join (map (\<lambda>k. appendString k @ '':'' @ appendString (the (map_of r k)))
                                (sort (remdups headers))) '','' @ ''}''"
    unfolding Marshal_def entries by (simp add: comp_def)
  have p: "jsonFunc True r
             = (if r = [] then ''   {}''
                else ''   {'' @ [NL] @ ''      ''
                  @ Join (map (\<lambda>k. appendString k @ '': '' @ appendString (the (map_of r k)))
                              (sort (remdups headers))) ('','' @ [NL] @ ''      '')
                  @ [NL] @ ''   }'')"
    unfolding jsonFunc_def MarshalIndent_def entries by (simp add: comp_def)
  have c: "jsonFunc False r = Marshal r" by (simp add: jsonFunc_def)
  from keys strict m c p show ?thesis by (intro conjI)
qed

theorem object_keys_sorted_witness:
  "processLine [''b'', ''a''] [''1'', ''2''] = Inr [(''b'', ''1''), (''a'', ''2'')]
   \<and> map fst (sortedEntries [(''b'', ''1''), (''a'', ''2'')]) = [''a'', ''b'']
   \<and> Marshal [(''b'', ''1''), (''a'', ''2'')]
        = [CHR ''{'', DQ, CHR ''a'', DQ, CHR '':'', DQ, CHR ''2'', DQ, CHR '','',
           DQ, CHR ''b'', DQ, CHR '':'', DQ, CHR ''1'', DQ, CHR ''}'']"
proof -
  have ok: "processLine [''b'', ''a''] [''1'', ''2''] = Inr [(''b'', ''1''), (''a'', ''2'')]"
    by (simp add: processLine_def)
  have s: "sort (remdups [''b'', ''a'']) = [''a'', ''b'']" by code_simp
  from object_keys_sorted [OF ok]
  have k: "map fst (sortedEntries [(''b'', ''1''), (''a'', ''2'')]) = sort (remdups [''b'', ''a''])"
    by (rule conjunct1)
  have m: "Marshal [(''b'', ''1''), (''a'', ''2'')]
        = [CHR ''{'', DQ, CHR ''a'', DQ, CHR '':'', DQ, CHR ''2'', DQ, CHR '','',
           DQ, CHR ''b'', DQ, CHR '':'', DQ, CHR ''1'', DQ, CHR ''}'']"
    by code_simp
  from ok k s m show ?thesis by (simp only: simp_thms)
qed

section \<open>Properties of the reader\<close>

lemma parse_ok_fields:
  "parseField comma line rest acc = (dst, None, rest') \<Longrightarrow> length acc < length dst"
  "parseQuoted comma line rest buf acc = (dst, None, rest') \<Longrightarrow> length acc < length dst"
proof (induction comma line rest acc and comma line rest buf acc
       arbitrary: dst rest' and dst rest' rule: parseField_parseQuoted.induct)
  case (1 comma line rest acc)
  from "1.prems" have
    "(if line = [] \<or> hd line \<noteq> DQ then
        (case IndexByte line comma of
           Some i \<Rightarrow>
             (let field = take i line in
              if DQ \<in> set field then (rev acc, Some ErrBareQuote, rest)
              else parseField comma (drop (i + 1) line) rest (field # acc))
         | None \<Rightarrow>
             (let field = take (length line - lengthNL line) line in
              if DQ \<in> set field then (rev acc, Some ErrBareQuote, rest)
              else (rev (field # acc), None, rest)))
      else parseQuoted comma (tl line) rest [] acc) = (dst, None, rest')"
    by (subst (asm) parseField.simps)
  with "1.IH" show ?case
    by (fastforce simp add: Let_def split: if_splits option.splits)
next
  case (2 comma line rest buf acc)
  from "2.prems" have
    "(case IndexByte line DQ of
        Some i \<Rightarrow>
          (let buf' = buf @ take i line; line' = drop (i + 1) line in
           if line' \<noteq> [] \<and> hd line' = DQ then parseQuoted comma (tl line') rest (buf' @ [DQ]) acc
           else if line' \<noteq> [] \<and> hd line' = comma then parseField comma (tl line') rest (buf' # acc)
           else if lengthNL line' = length line' then (rev (buf' # acc), None, rest)
           else (rev acc, Some ErrQuote, rest))
      | None \<Rightarrow>
          (if line \<noteq> [] then
             (case readLine rest of (line', eof, rest') \<Rightarrow>
                parseQuoted comma line' rest' (buf @ line) acc)
           else (rev acc, Some ErrQuote, rest))) = (dst, None, rest')"
    by (subst (asm) parseQuoted.simps)
  with "2.IH" show ?case
    by (fastforce simp add: Let_def split: if_splits option.splits prod.splits)
qed

lemma Read_first:
  assumes "Read r = ((line, None), r')" and "FieldsPerRecord r = 0"
  shows "FieldsPerRecord r' = int (length line) \<and> 0 < length line \<and> Comma r' = Comma r"
proof -
  obtain l e rest where nl: "nextLine (unread r) = (l, e, rest)"
    by (cases "nextLine (unread r)") auto
  with assms have ne: "\<not> e"
    by (auto simp add: Read_def readRecord_def)
  obtain dst perr rest' where pf: "parseField (Comma r) l rest [] = (dst, perr, rest')"
    by (cases "parseField (Comma r) l rest []") auto
  from assms nl ne pf have "dst = line" "perr = None"
    and r': "r' = r\<lparr>unread := rest', FieldsPerRecord := int (length dst)\<rparr>"
    by (auto simp add: Read_def readRecord_def split: if_splits)
  with pf parse_ok_fields(1) [of "Comma r" l rest "[]" line rest'] show ?thesis
    by simp
qed

lemma Read_later:
  assumes "Read r = ((line, err), r')" and "0 < FieldsPerRecord r"
  shows "FieldsPerRecord r' = FieldsPerRecord r \<and> Comma r' = Comma r
         \<and> (err = None \<longrightarrow> int (length line) = FieldsPerRecord r)"
proof -
  obtain l e rest where nl: "nextLine (unread r) = (l, e, rest)"
    by (cases "nextLine (unread r)") auto
  obtain dst perr rest' where pf: "parseField (Comma r) l rest [] = (dst, perr, rest')"
    by (cases "parseField (Comma r) l rest []") auto
  from assms nl pf show ?thesis
    by (auto simp add: Read_def readRecord_def split: if_splits)
qed

lemma readLoop_by_records:
  assumes "int (length headers) = FieldsPerRecord reader" and "0 < length headers"
    and "readRecords reader = (rows, e)"
  shows "readLoop headers reader
           = \<lparr>sent = map (\<lambda>row. fold (\<lambda>(name, d) recordMap. AList.update name d recordMap)
                                      (zip headers row) []) rows,
              printed = [], fatal = map_option CsvError e\<rparr>
         \<and> (\<forall>row \<in> set rows. length row = length headers)"
  using assms
proof (induction reader arbitrary: rows e rule: readRecords.induct)
  case (1 reader)
  obtain line err reader' where rd: "Read reader = ((line, err), reader')"
    by (cases "Read reader") auto
  have pos: "0 < FieldsPerRecord reader"
    using "1.prems"(1) [symmetric] "1.prems"(2) by simp
  note later = Read_later [OF rd pos]
  show ?case
  proof (cases "err = None")
    case False
    with rd "1.prems"(3) show ?thesis
      by (auto simp add: readRecords.simps [of reader] readLoop.simps [of headers reader])
  next
    case True
    obtain rows' e' where rest: "readRecords reader' = (rows', e')"
      by (cases "readRecords reader'") auto
    from True later "1.prems"(1) have len: "length line = length headers" by simp
    from later "1.prems"(1) have inv: "int (length headers) = FieldsPerRecord reader'" by simp
    from True rd have ih: "readLoop headers reader'
           = \<lparr>sent = map (\<lambda>row. fold (\<lambda>(name, d) recordMap. AList.update name d recordMap)
                                      (zip headers row) []) rows',
              printed = [], fatal = map_option CsvError e'\<rparr>
         \<and> (\<forall>row \<in> set rows'. length row = length headers)"
      using True by (intro "1.IH" [OF rd [symmetric] refl _ _ inv "1.prems"(2) rest]) simp_all
    from True rd rest "1.prems"(3) have "rows = line # rows'" "e = e'"
      by (auto simp add: readRecords.simps [of reader])
    with True rd ih len show ?thesis
      by (simp add: readLoop.simps [of headers reader] processLine_def)
  qed
qed

lemma readRecords_Cons:
  assumes "readRecords reader = (line # rows, e)"
  shows "\<exists>reader'. Read reader = ((line, None), reader') \<and> readRecords reader' = (rows, e)"
proof -
  obtain l err reader' where rd: "Read reader = ((l, err), reader')"
    by (cases "Read reader") auto
  obtain rows' e' where rest: "readRecords reader' = (rows', e')"
    by (cases "readRecords reader'") auto
  from assms rd rest show ?thesis
    by (auto simp add: readRecords.simps [of reader] split: if_splits)
qed

lemma openReader_fields: "FieldsPerRecord (openReader fileData bytes) = 0"
  by (simp add: openReader_def NewReader_def Let_def)

lemma processCsvFile_by_records:
  assumes "fs (filepath fileData) = Regular bytes"
    and "readRecords (openReader fileData bytes) = (headers # rows, e)"
  shows "processCsvFile fs fileData
           = \<lparr>sent = map (\<lambda>row. fold (\<lambda>(name, d) recordMap. AList.update name d recordMap)
                                      (zip headers row) []) rows,
              printed = [], fatal = map_option CsvError e\<rparr>
         \<and> (\<forall>row \<in> set rows. length row = length headers)"
proof -
  from readRecords_Cons [OF assms(2)] obtain reader' where
    rd: "Read (openReader fileData bytes) = ((headers, None), reader')"
    and rest: "readRecords reader' = (rows, e)" by blast
  from Read_first [OF rd openReader_fields] have
    inv: "int (length headers) = FieldsPerRecord reader'" and pos: "0 < length headers"
    by simp_all
  from readLoop_by_records [OF inv pos rest] assms(1) rd show ?thesis
    by (simp add: processCsvFile_def)
qed

lemma processLine_same_length:
  "length row = length headers \<Longrightarrow>
   processLine headers row
     = Inr (fold (\<lambda>(name, d) recordMap. AList.update name d recordMap) (zip headers row) [])"
  by (simp add: processLine_def)

lemma main_by_records:
  assumes "getFileData cl = Inr fileData" and "Ext (filepath fileData) = ''.csv''"
    and "fs (filepath fileData) = Regular bytes"
    and "readRecords (openReader fileData bytes) = (headers # rows, None)"
  shows "\<exists>recs. main fs cl = Completed (writeJSONFile (filepath fileData) recs (pretty fileData)) []
           \<and> map (processLine headers) rows = map Inr recs
           \<and> (\<forall>row \<in> set rows. length row = length headers)"
proof -
  let ?recs = "map (\<lambda>row. fold (\<lambda>(name, d) recordMap. AList.update name d recordMap)
                                      (zip headers row) []) rows"
  from processCsvFile_by_records [where fs = fs, OF assms(3,4)] have
    run: "processCsvFile fs fileData = \<lparr>sent = ?recs, printed = [], fatal = None\<rparr>"
    and len: "\<forall>row \<in> set rows. length row = length headers"
    by simp_all
  from assms(2,3) have "checkIfValidFile fs (filepath fileData) = Inr True"
    by (simp add: checkIfValidFile_def)
  with assms(1) run have
    "main fs cl = Completed (writeJSONFile (filepath fileData) ?recs (pretty fileData)) []"
    by (simp add: main_def pipeline_def)
  moreover from len have "map (processLine headers) rows = map Inr ?recs"
    by (simp add: processLine_same_length)
  ultimately show ?thesis using len by blast
qed

lemma processLine_distinct_headers:
  assumes "processLine headers row = Inr r" and "distinct headers"
  shows "length r = length headers" and "set (map fst r) = set headers"
    and "\<forall>j < length headers. map_of r (headers ! j) = Some (row ! j)"
proof -
  from processLine_length [OF assms(1)] assms(2) show "length r = length headers"
    by (simp add: distinct_card)
  from assms(1) show "set (map fst r) = set headers" by (rule processLine_keys)
  from assms(1) have len: "length headers = length row"
    and r: "r = fold (\<lambda>(name, d) recordMap. AList.update name d recordMap) (zip headers row) []"
    by (simp_all add: processLine_Inr)
  show "\<forall>j < length headers. map_of r (headers ! j) = Some (row ! j)"
  proof (intro allI impI)
    fix j assume j: "j < length headers"
    with assms(2) have "\<forall>i. j < i \<and> i < length headers \<longrightarrow> headers ! i \<noteq> headers ! j"
      by (auto simp add: nth_eq_iff_index_eq)
    from fold_update_last [OF len j this] r show "map_of r (headers ! j) = Some (row ! j)"
      by simp
  qed
qed

text \<open>
  The branch of \<^verbatim>\<open>processCsvFile\<close> that reports and skips a line is never taken: the
  library reader has already turned every line of another length into an error.
\<close>

lemma processCsvFile_never_skips: "printed (processCsvFile fs fileData) = []"
proof (cases "fs (filepath fileData)")
  case (Regular bytes)
  obtain headers err reader' where
    rd: "Read (openReader fileData bytes) = ((headers, err), reader')"
    by (cases "Read (openReader fileData bytes)") auto
  show ?thesis
  proof (cases "err = None")
    case True
    obtain rows e where rest: "readRecords reader' = (rows, e)"
      by (cases "readRecords reader'") auto
    from True rd Read_first [OF _ openReader_fields, of fileData bytes headers reader'] have
      inv: "int (length headers) = FieldsPerRecord reader'" and pos: "0 < length headers"
      by simp_all
    from readLoop_by_records [OF inv pos rest] True rd Regular show ?thesis
      by (simp add: processCsvFile_def)
  next
    case False
    with rd Regular show ?thesis by (simp add: processCsvFile_def)
  qed
qed (simp_all add: processCsvFile_def)

section \<open>Indented and compact output\<close>

lemma strip_plain:
  "\<forall>c \<in> set xs. c \<noteq> DQ \<and> c \<noteq> BSL \<Longrightarrow>
   stripSpace InString (xs @ rest) = xs @ stripSpace InString rest"
  by (induction xs) auto

lemma strip_escape:
  "\<forall>c \<in> set xs. c \<noteq> DQ \<and> c \<noteq> BSL \<Longrightarrow>
   stripSpace InString (BSL # x # xs @ rest) = BSL # x # xs @ stripSpace InString rest"
  by (simp add: strip_plain)























section \<open>Properties of the output path\<close>

lemma ExtFrom_shape:
  "ExtFrom xs acc = e \<Longrightarrow> e \<noteq> [] \<Longrightarrow>
   \<exists>ys zs. xs = ys @ CHR ''.'' # zs \<and> e = CHR ''.'' # rev ys @ acc
           \<and> SL \<notin> set ys \<and> CHR ''.'' \<notin> set ys"
proof (induction xs arbitrary: acc)
  case Nil
  then show ?case by simp
next
  case (Cons c cs)
  show ?case
  proof (cases "c = SL")
    case True
    with Cons.prems show ?thesis by simp
  next
    case notsl: False
    show ?thesis
    proof (cases "c = CHR ''.''")
      case True
      with notsl Cons.prems have "e = CHR ''.'' # rev [] @ acc" by simp
      with True show ?thesis by (intro exI [of _ "[]"] exI [of _ cs]) simp
    next
      case False
      with notsl Cons.prems have "ExtFrom cs (c # acc) = e" by simp
      from Cons.IH [OF this Cons.prems(2)] obtain ys zs where
        "cs = ys @ CHR ''.'' # zs" "e = CHR ''.'' # rev ys @ c # acc"
        "SL \<notin> set ys" "CHR ''.'' \<notin> set ys" by blast
      with notsl False show ?thesis
        by (intro exI [of _ "c # ys"] exI [of _ zs]) simp
    qed
  qed
qed

lemma Ext_csv: "Ext path = ''.csv'' \<Longrightarrow> \<exists>q. path = q @ ''.csv''"
proof -
  assume a: "Ext path = ''.csv''"
  then have "ExtFrom (rev path) [] = ''.csv''" by (simp add: Ext_def)
  from ExtFrom_shape [OF this] obtain ys zs where
    r: "rev path = ys @ CHR ''.'' # zs" and e: "''.csv'' = CHR ''.'' # rev ys @ []"
    by auto
  from e have "rev ys = ''csv''" by simp
  then have "ys = rev ''csv''" by (metis rev_rev_ident)
  with r have "rev path = rev ''csv'' @ CHR ''.'' # zs" by simp
  then have "rev (rev path) = rev (rev ''csv'' @ CHR ''.'' # zs)" by (simp only:)
  then have "path = rev zs @ ''.csv''" by simp
  then show ?thesis by blast
qed

lemma Base_with_extension:
  assumes "SL \<notin> set ext" and "ext \<noteq> []"
  shows "Base (q @ ext) = rev (takeWhile (\<lambda>c. c \<noteq> SL) (rev q)) @ ext"
proof -
  from assms have "hd (rev ext) \<noteq> SL" "rev ext \<noteq> []"
    by (simp_all add: hd_rev last_in_set) (metis last_in_set)
  then have strip: "dropWhile (\<lambda>c. c = SL) (rev (q @ ext)) = rev (q @ ext)"
    by (cases "rev ext") simp_all
  from assms(1) have "takeWhile (\<lambda>c. c \<noteq> SL) (rev ext @ rev q)
      = rev ext @ takeWhile (\<lambda>c. c \<noteq> SL) (rev q)"
    by (intro takeWhile_append2) auto
  with strip assms(2) show ?thesis by (simp add: Base_def)
qed

lemma TrimSuffix_append: "TrimSuffix (stem @ suffix) suffix = stem"
  by (simp add: TrimSuffix_def HasSuffix_def)

lemma Ext_with_extension:
  assumes "SL \<notin> set ext" and "CHR ''.'' \<notin> set ext"
  shows "Ext (q @ CHR ''.'' # ext) = CHR ''.'' # ext"
proof -
  have "ExtFrom (ys @ CHR ''.'' # zs) acc = CHR ''.'' # rev ys @ acc"
    if "SL \<notin> set ys" "CHR ''.'' \<notin> set ys" for ys zs acc
    using that by (induction ys arbitrary: acc) (auto simp add: SL_def)
  from this [of "rev ext" "rev q" "[]"] assms show ?thesis
    by (simp add: Ext_def)
qed

text \<open>
  C5: \<^verbatim>\<open>main\<close> starts the writer only for a path whose extension is \<^verbatim>\<open>.csv\<close>.  For
  such a path the base name is a stem followed by \<^verbatim>\<open>.csv\<close>, and the output file is
  created at the directory of the input path (\<^verbatim>\<open>filepath.Dir\<close>), a slash, the same stem
  and \<^verbatim>\<open>.json\<close>; the base name of that path is the stem with \<^verbatim>\<open>.json\<close> and its
  extension is \<^verbatim>\<open>.json\<close>.
\<close>

theorem output_path_derived:
  assumes "Ext csvPath = ''.csv''"
  shows "\<exists>stem. Base csvPath = stem @ ''.csv''
           \<and> SL \<notin> set stem
           \<and> finalLocation csvPath = Dir csvPath @ ''/'' @ stem @ ''.json''
           \<and> Base (finalLocation csvPath) = stem @ ''.json''
           \<and> Ext (finalLocation csvPath) = ''.json''"
proof -
  from Ext_csv [OF assms] obtain q where q: "csvPath = q @ ''.csv''" by blast
  let ?stem = "rev (takeWhile (\<lambda>c. c \<noteq> SL) (rev q))"
  have nosl: "SL \<notin> set ?stem"
    by (auto dest: set_takeWhileD)
  have b: "Base csvPath = ?stem @ ''.csv''"
    unfolding q by (rule Base_with_extension) (simp_all add: SL_def)
  then have loc: "finalLocation csvPath = Dir csvPath @ ''/'' @ ?stem @ ''.json''"
    by (simp add: finalLocation_def TrimSuffix_append)
  have "Base ((Dir csvPath @ ''/'') @ ?stem @ ''.json'')
      = rev (takeWhile (\<lambda>c. c \<noteq> SL) (rev (Dir csvPath @ ''/''))) @ ?stem @ ''.json''"
    using nosl Base_with_extension [of "?stem @ ''.json''" "Dir csvPath @ ''/''"]
    by (simp add: SL_def)
  then have bl: "Base (finalLocation csvPath) = ?stem @ ''.json''"
    by (simp add: loc SL_def)
  have "Ext ((Dir csvPath @ ''/'' @ ?stem) @ CHR ''.'' # ''json'') = CHR ''.'' # ''json''"
    by (rule Ext_with_extension) (simp_all add: SL_def)
  then have el: "Ext (finalLocation csvPath) = ''.json''"
    by (simp add: loc)
  from b nosl loc bl el show ?thesis by blast
qed

theorem output_path_derived_witness:
  "Ext ''dir/data.csv'' = ''.csv''
   \<and> Base ''dir/data.csv'' = ''data'' @ ''.csv''
   \<and> Dir ''dir/data.csv'' = ''dir''
   \<and> finalLocation ''dir/data.csv'' = ''dir/data.json''"
proof -
  have h: "Ext ''dir/data.csv'' = ''.csv''" by code_simp
  from output_path_derived [OF h] obtain stem where
    b: "Base ''dir/data.csv'' = stem @ ''.csv''"
    and l: "finalLocation ''dir/data.csv'' = Dir ''dir/data.csv'' @ ''/'' @ stem @ ''.json''"
    by blast
  have "Base ''dir/data.csv'' = ''data.csv''" by code_simp
  with b have stem: "stem = ''data''" by simp
  have d: "Dir ''dir/data.csv'' = ''dir''" by code_simp
  from h b l stem d show ?thesis by simp
qed

section \<open>Properties of \<^verbatim>\<open>main\<close>\<close>

text \<open>
  C6: if \<^verbatim>\<open>os.Stat\<close> reports that the input path does not exist, or the extension of the
  path is not \<^verbatim>\<open>.csv\<close>, the run ends in \<^verbatim>\<open>exitGracefully\<close> inside \<^verbatim>\<open>main\<close>, with exit
  status 1, before the goroutines are started, so before the writer creates the output
  file.
\<close>

theorem main_rejects_invalid_path:
  assumes "fs (arg0 cl) = NotExist \<or> Ext (arg0 cl) \<noteq> ''.csv''"
  shows "(\<exists>e. main fs cl = ExitBeforeStart e)
         \<and> exitStatus (main fs cl) = 1 \<and> \<not> writerStarted (main fs cl)"
  using assms
  by (auto simp add: main_def getFileData_def checkIfValidFile_def split: sum.splits)

theorem main_rejects_invalid_path_witness:
  "main (\<lambda>p. NotExist)
        \<lparr>argc = 2, separatorFlag = ''comma'', prettyFlag = False, arg0 = ''data.csv''\<rparr>
     = ExitBeforeStart (DoesNotExist ''data.csv'')
   \<and> main (\<lambda>p. Regular ''a,b'')
        \<lparr>argc = 2, separatorFlag = ''comma'', prettyFlag = False, arg0 = ''data.txt''\<rparr>
     = ExitBeforeStart (NotCSV ''data.txt'')"
proof -
  let ?c1 = "\<lparr>argc = 2, separatorFlag = ''comma'', prettyFlag = False, arg0 = ''data.csv''\<rparr>"
  let ?c2 = "\<lparr>argc = 2, separatorFlag = ''comma'', prettyFlag = False, arg0 = ''data.txt''\<rparr>"
  have "(\<lambda>p. NotExist) (arg0 ?c1) = NotExist \<or> Ext (arg0 ?c1) \<noteq> ''.csv''" by simp
  from main_rejects_invalid_path [OF this] obtain e1 where
    e1: "main (\<lambda>p. NotExist) ?c1 = ExitBeforeStart e1" by blast
  have "(\<lambda>p. Regular ''a,b'') (arg0 ?c2) = NotExist \<or> Ext (arg0 ?c2) \<noteq> ''.csv''"
    by (simp add: Ext_def SL_def)
  from main_rejects_invalid_path [OF this] obtain e2 where
    e2: "main (\<lambda>p. Regular ''a,b'') ?c2 = ExitBeforeStart e2" by blast
  from e1 have "e1 = DoesNotExist ''data.csv''"
    by (simp add: main_def getFileData_def checkIfValidFile_def Ext_def SL_def)
  moreover from e2 have "e2 = NotCSV ''data.txt''"
    by (simp add: main_def getFileData_def checkIfValidFile_def Ext_def SL_def)
  ultimately show ?thesis using e1 e2 by simp
qed

text \<open>
  C2: a valid input, that is, one that the library reader reads to the end without an
  error as a header of distinct names followed by \<open>n\<close> rows.  Every row then has as
  many fields as the header; the run completes with nothing skipped; there is one record
  per row, in the order of the rows, with exactly the header names as keys and field
  \<open>j\<close> of the row as the value of name \<open>j\<close>; and the file holds the opening bracket,
  the \<open>n\<close> objects separated by commas, and the closing bracket.  The example after it is
  scenario A with its exact bytes.
\<close>

theorem valid_input_output:
  assumes "getFileData cl = Inr fileData" and "Ext (filepath fileData) = ''.csv''"
    and "fs (filepath fileData) = Regular bytes"
    and "readRecords (openReader fileData bytes) = (headers # rows, None)"
    and "distinct headers"
  shows "\<exists>w recs. main fs cl = Completed w []
           \<and> length recs = length rows
           \<and> (\<forall>i < length rows.
                 length (rows ! i) = length headers
                 \<and> processLine headers (rows ! i) = Inr (recs ! i)
                 \<and> length (recs ! i) = length headers
                 \<and> set (map fst (recs ! i)) = set headers
                 \<and> (\<forall>j < length headers. map_of (recs ! i) (headers ! j) = Some (rows ! i ! j)))
           \<and> closed (outFile w)
           \<and> content (outFile w)
                = ''['' @ breakLine (pretty fileData)
                    @ Join (map (jsonFunc (pretty fileData)) recs) ('','' @ breakLine (pretty fileData))
                    @ breakLine (pretty fileData) @ '']''"
proof -
  from main_by_records [where fs = fs, OF assms(1-4)] obtain recs where
    m: "main fs cl = Completed (writeJSONFile (filepath fileData) recs (pretty fileData)) []"
    and recs: "map (processLine headers) rows = map Inr recs"
    and len: "\<forall>row \<in> set rows. length row = length headers"
    by blast
  from recs have n: "length recs = length rows" by (metis length_map)
  have each: "\<forall>i < length rows.
                 length (rows ! i) = length headers
                 \<and> processLine headers (rows ! i) = Inr (recs ! i)
                 \<and> length (recs ! i) = length headers
                 \<and> set (map fst (recs ! i)) = set headers
                 \<and> (\<forall>j < length headers. map_of (recs ! i) (headers ! j) = Some (rows ! i ! j))"
  proof (intro allI impI)
    fix i assume i: "i < length rows"
    with recs n have pl: "processLine headers (rows ! i) = Inr (recs ! i)"
      by (metis nth_map)
    from i len have "length (rows ! i) = length headers" by simp
    with pl processLine_distinct_headers [OF pl assms(5)]
    show "length (rows ! i) = length headers
                 \<and> processLine headers (rows ! i) = Inr (recs ! i)
                 \<and> length (recs ! i) = length headers
                 \<and> set (map fst (recs ! i)) = set headers
                 \<and> (\<forall>j < length headers. map_of (recs ! i) (headers ! j) = Some (rows ! i ! j))"
      by (intro conjI)
  qed
  from m n each writeJSONFile_closed [of "filepath fileData" recs "pretty fileData"]
    writeJSONFile_content [of "filepath fileData" recs "pretty fileData"]
  show ?thesis by blast
qed

theorem valid_input_output_witness:
  "readRecords (openReader \<lparr>filepath = ''dir/data.csv'', separator = ''comma'', pretty = False\<rparr>
                           ''a,b\<newline>1,2\<newline>3,4'')
     = ([''a'', ''b''] # [[''1'', ''2''], [''3'', ''4'']], None)
   \<and> (\<exists>w. main (\<lambda>p. if p = ''dir/data.csv'' then Regular ''a,b\<newline>1,2\<newline>3,4'' else NotExist)
                 \<lparr>argc = 2, separatorFlag = ''comma'', prettyFlag = False, arg0 = ''dir/data.csv''\<rparr>
              = Completed w []
            \<and> content (outFile w)
                = ''[{'' @ DQ # ''a'' @ DQ # '':'' @ DQ # ''1'' @ DQ # '','' @ DQ # ''b'' @ DQ # '':''
                    @ DQ # ''2'' @ DQ # ''},{'' @ DQ # ''a'' @ DQ # '':'' @ DQ # ''3'' @ DQ # '',''
                    @ DQ # ''b'' @ DQ # '':'' @ DQ # ''4'' @ DQ # ''}]'')"
proof -
  let ?fd = "\<lparr>filepath = ''dir/data.csv'', separator = ''comma'', pretty = False\<rparr>"
  let ?cl = "\<lparr>argc = 2, separatorFlag = ''comma'', prettyFlag = False, arg0 = ''dir/data.csv''\<rparr>"
  let ?fs = "\<lambda>p. if p = ''dir/data.csv'' then Regular ''a,b\<newline>1,2\<newline>3,4'' else NotExist"
  let ?rows = "[[''1'', ''2''], [''3'', ''4'']]"
  have h1: "getFileData ?cl = Inr ?fd" by (simp add: getFileData_def)
  have h2: "Ext (filepath ?fd) = ''.csv''" by code_simp
  have h3: "?fs (filepath ?fd) = Regular ''a,b\<newline>1,2\<newline>3,4''" by simp
  have h4: "readRecords (openReader ?fd ''a,b\<newline>1,2\<newline>3,4'') = ([''a'', ''b''] # ?rows, None)"
    by code_simp
  have h5: "distinct [''a'', ''b'']" by simp
  from valid_input_output [where fs = ?fs, OF h1 h2 h3 h4 h5] obtain w recs where
    m: "main ?fs ?cl = Completed w []"
    and n: "length recs = length ?rows"
    and each: "\<forall>i < length ?rows. processLine [''a'', ''b''] (?rows ! i) = Inr (recs ! i)"
    and c: "content (outFile w)
                = ''['' @ breakLine (pretty ?fd)
                    @ Join (map (jsonFunc (pretty ?fd)) recs) ('','' @ breakLine (pretty ?fd))
                    @ breakLine (pretty ?fd) @ '']''"
    by blast
  from each [rule_format, of 0] each [rule_format, of 1]
  have "processLine [''a'', ''b''] (?rows ! 0) = Inr (recs ! 0)"
    and "processLine [''a'', ''b''] (?rows ! 1) = Inr (recs ! 1)"
    by simp_all
  then have r0: "recs ! 0 = [(''a'', ''1''), (''b'', ''2'')]"
    and r1: "recs ! 1 = [(''a'', ''3''), (''b'', ''4'')]"
    by (simp_all add: processLine_def)
  from n have "recs = [recs ! 0, recs ! 1]"
    by (cases recs; cases "tl recs") auto
  with r0 r1 have recs: "recs = [[(''a'', ''1''), (''b'', ''2'')], [(''a'', ''3''), (''b'', ''4'')]]"
    by simp
  have "''['' @ breakLine False
          @ Join (map (jsonFunc False) [[(''a'', ''1''), (''b'', ''2'')], [(''a'', ''3''), (''b'', ''4'')]])
                 ('','' @ breakLine False)
          @ breakLine False @ '']''
        = ''[{'' @ DQ # ''a'' @ DQ # '':'' @ DQ # ''1'' @ DQ # '','' @ DQ # ''b'' @ DQ # '':''
                    @ DQ # ''2'' @ DQ # ''},{'' @ DQ # ''a'' @ DQ # '':'' @ DQ # ''3'' @ DQ # '',''
                    @ DQ # ''b'' @ DQ # '':'' @ DQ # ''4'' @ DQ # ''}]''"
    by code_simp
  with c recs have "content (outFile w)
                = ''[{'' @ DQ # ''a'' @ DQ # '':'' @ DQ # ''1'' @ DQ # '','' @ DQ # ''b'' @ DQ # '':''
                    @ DQ # ''2'' @ DQ # ''},{'' @ DQ # ''a'' @ DQ # '':'' @ DQ # ''3'' @ DQ # '',''
                    @ DQ # ''b'' @ DQ # '':'' @ DQ # ''4'' @ DQ # ''}]''"
    by simp
  with m h4 show ?thesis by blast
qed

text \<open>
  C4: an input in which the library reader finds a header and nothing else.  The run
  completes and the file holds the empty array: the two bytes \<^verbatim>\<open>[]\<close> without the pretty
  flag, and the same brackets with two newlines between them with it.
\<close>

theorem header_only_output:
  assumes "getFileData cl = Inr fileData" and "Ext (filepath fileData) = ''.csv''"
    and "fs (filepath fileData) = Regular bytes"
    and "readRecords (openReader fileData bytes) = ([headers], None)"
  shows "\<exists>w. main fs cl = Completed w []
           \<and> closed (outFile w)
           \<and> content (outFile w) = (if pretty fileData then [CHR ''['', NL, NL, CHR '']''] else ''[]'')"
proof -
  from main_by_records [where fs = fs, OF assms] obtain recs where
    m: "main fs cl = Completed (writeJSONFile (filepath fileData) recs (pretty fileData)) []"
    and recs: "map (processLine headers) [] = map Inr recs"
    by blast
  from recs have "recs = []" by simp
  with m writeJSONFile_closed [of "filepath fileData" "[]" "pretty fileData"]
    writeJSONFile_content [of "filepath fileData" "[]" "pretty fileData"]
  show ?thesis by (simp add: breakLine_def)
qed

theorem header_only_output_witness:
  "readRecords (openReader \<lparr>filepath = ''data.csv'', separator = ''comma'', pretty = False\<rparr>
                           ''a,b\<newline>'')
     = ([[''a'', ''b'']], None)
   \<and> (\<exists>w. main (\<lambda>p. if p = ''data.csv'' then Regular ''a,b\<newline>'' else NotExist)
                 \<lparr>argc = 2, separatorFlag = ''comma'', prettyFlag = False, arg0 = ''data.csv''\<rparr>
              = Completed w []
            \<and> content (outFile w) = ''[]'')"
proof -
  let ?fd = "\<lparr>filepath = ''data.csv'', separator = ''comma'', pretty = False\<rparr>"
  let ?cl = "\<lparr>argc = 2, separatorFlag = ''comma'', prettyFlag = False, arg0 = ''data.csv''\<rparr>"
  let ?fs = "\<lambda>p. if p = ''data.csv'' then Regular ''a,b\<newline>'' else NotExist"
  have h1: "getFileData ?cl = Inr ?fd" by (simp add: getFileData_def)
  have h2: "Ext (filepath ?fd) = ''.csv''" by code_simp
  have h3: "?fs (filepath ?fd) = Regular ''a,b\<newline>''" by simp
  have h4: "readRecords (openReader ?fd ''a,b\<newline>'') = ([[''a'', ''b'']], None)"
    by code_simp
  from header_only_output [where fs = ?fs, OF h1 h2 h3 h4] obtain w where
    "main ?fs ?cl = Completed w []" and "content (outFile w) = ''[]''"
    by auto
  with h4 show ?thesis by blast
qed


lemma pretty_example:
  "stripSpace Outside
     (content (outFile (writeJSONFile ''x.csv'' [[(''a'', ''1 2''), (''b'', ''2'')]] True)))
   = ''[{'' @ DQ # ''a'' @ DQ # '':'' @ DQ # ''1 2'' @ DQ # '','' @ DQ # ''b'' @ DQ # '':''
        @ DQ # ''2'' @ DQ # ''}]''"
  by code_simp

text \<open>
  C1: the input of scenario C, \<^verbatim>\<open>a,b\n1,2\n3\<close>.  The library reader was created with
  \<^verbatim>\<open>FieldsPerRecord = 0\<close>, so after the header it demands two fields of every record and
  returns \<^verbatim>\<open>ErrFieldCount\<close> for the line \<^verbatim>\<open>3\<close>; \<^verbatim>\<open>processCsvFile\<close> passes every error
  other than \<^verbatim>\<open>io.EOF\<close> to \<^verbatim>\<open>exitGracefully\<close>.  The run ends with exit status 1 after one
  record was handed to the writer, the channel is never closed, and \<^verbatim>\<open>processLine\<close> is
  not called for the short line.
\<close>

theorem short_row_exits:
  "main (\<lambda>p. if p = ''in.csv'' then Regular ''a,b\<newline>1,2\<newline>3'' else NotExist)
        \<lparr>argc = 2, separatorFlag = ''comma'', prettyFlag = False, arg0 = ''in.csv''\<rparr>
     = ExitInReader (CsvError ErrFieldCount) [[(''a'', ''1''), (''b'', ''2'')]]"
  by code_simp

section \<open>Runs of the converter\<close>

text \<open>
  No step changes how the reader will end, and no step changes the file that the writer
  leaves if it goes on to its end: the encoder sorts the keys, so the order in which the
  writer meets the entries of a record does not show in the text it writes.
\<close>

lemma step_ending: "step csvPath indented s s' \<Longrightarrow> ending s' = ending s"
  by (induction rule: step.induct) simp_all

lemma step_finish:
  "step csvPath indented s s' \<Longrightarrow> finish csvPath indented s' = finish csvPath indented s"
proof (induction rule: step.induct)
  case (create r fl)
  show ?case by (simp add: writeJSONFile_def getJSONFunc_def writerStart_def loopFrom_def)
next
  case (handOver m m' ms e fl d)
  then have "jsonFunc indented m = jsonFunc indented m'"
    by (auto simp add: sameMap_def intro: jsonFunc_same_map)
  then show ?case by (cases d) (simp_all add: writerStep_def loopFrom_def)
next
  case (closeChannel w fl d)
  show ?case by (cases w) simp_all
next
  case (seeClosed fl d)
  show ?case by (cases d) (simp_all add: writerStep_def loopFrom_def)
next
  case (separatorFirst r m d)
  show ?case by (cases d) (simp_all add: writerStep_def loopFrom_def)
qed (simp_all add: writerStep_def loopFrom_def)

text \<open>
  A run in which the reader closes the channel ends with \<^verbatim>\<open>main\<close> returning, and the file
  is the one that the writer's loop makes of all the records.
\<close>

lemma completing_run:
  assumes "leads csvPath indented s obs" and "ending s = None"
  shows "obs = Exited 0 (finish csvPath indented s)"
  using assms
proof (induction rule: leads.induct)
  case (exitInReader e w fl d)
  then show ?case by simp
next
  case (mainReturns r fl d)
  show ?case by simp
next
  case (further s s' obs)
  from further.hyps(1) further.prems have "ending s' = None" by (simp add: step_ending)
  with further.IH further.hyps(1) show ?case by (simp add: step_finish)
qed

text \<open>
  A run in which the reader ends in an error never reaches the closing bracket: the
  writer does not see the channel closed, and the process ends with status 1.
\<close>

lemma step_before_close:
  assumes "step csvPath indented s s'" and "ending s = Some e"
    and "writerAt s \<noteq> AtCloseBracket" and "writerAt s \<noteq> AtDone"
  shows "writerAt s' \<noteq> AtCloseBracket \<and> writerAt s' \<noteq> AtDone"
  using assms by (induction rule: step.induct) auto

lemma exiting_run:
  assumes "leads csvPath indented s obs" and "ending s = Some e"
    and "writerAt s \<noteq> AtCloseBracket" and "writerAt s \<noteq> AtDone"
  shows "\<exists>d. obs = Exited 1 d"
  using assms
proof (induction rule: leads.induct)
  case (exitInReader e' w fl d)
  show ?case by simp
next
  case (mainReturns r fl d)
  then show ?case by simp
next
  case (further s s' obs)
  from further.hyps(1) further.prems(1) have "ending s' = Some e" by (simp add: step_ending)
  moreover from step_before_close [OF further.hyps(1) further.prems]
  have "writerAt s' \<noteq> AtCloseBracket" "writerAt s' \<noteq> AtDone" by simp_all
  ultimately show ?case by (rule further.IH)
qed

text \<open>The records that \<open>processCsvFile\<close> sends have distinct keys, as Go maps do.\<close>

lemma sent_distinct: "\<forall>m \<in> set (sent (processCsvFile fs fileData)). distinct (map fst m)"
proof (cases "fs (filepath fileData)")
  case (Regular bytes)
  obtain headers err reader' where
    rd: "Read (openReader fileData bytes) = ((headers, err), reader')"
    by (cases "Read (openReader fileData bytes)") auto
  show ?thesis
  proof (cases "err = None")
    case True
    obtain rows e where rest: "readRecords reader' = (rows, e)"
      by (cases "readRecords reader'") auto
    from True rd Read_first [OF _ openReader_fields, of fileData bytes headers reader'] have
      inv: "int (length headers) = FieldsPerRecord reader'" and pos: "0 < length headers"
      by simp_all
    from readLoop_by_records [OF inv pos rest] True rd Regular show ?thesis
      by (simp add: processCsvFile_def fold_update_distinct)
  next
    case False
    with rd Regular show ?thesis by (simp add: processCsvFile_def)
  qed
qed (simp_all add: processCsvFile_def)

text \<open>
  Every state in which the writer waits at the receive has a run to an end of the
  process, so every invocation of the program has a run.
\<close>

lemma run_from_receive:
  assumes "\<forall>m \<in> set ms. distinct (map fst m)"
  shows "\<exists>obs. leads csvPath indented (State (AtSend ms e) AtReceive fl (Some f)) obs"
  using assms
proof (induction ms arbitrary: fl f)
  case Nil
  show ?case
  proof (cases e)
    case None
    have "leads csvPath indented
            (State Returned AtDone fl (Some (writeString (breakLine indented @ '']'') True f)))
            (Exited 0 (Some (writeString (breakLine indented @ '']'') True f)))"
      by (rule leads.mainReturns)
    then have "leads csvPath indented (State Returned AtCloseBracket fl (Some f))
            (Exited 0 (Some (writeString (breakLine indented @ '']'') True f)))"
      by (rule leads.further [OF step.closeBracket])
    then have "leads csvPath indented (State Returned AtReceive fl (Some f))
            (Exited 0 (Some (writeString (breakLine indented @ '']'') True f)))"
      by (rule leads.further [OF step.seeClosed])
    then have "leads csvPath indented (State (AtSend [] None) AtReceive fl (Some f))
            (Exited 0 (Some (writeString (breakLine indented @ '']'') True f)))"
      by (rule leads.further [OF step.closeChannel])
    with None show ?thesis by blast
  next
    case (Some err)
    have "leads csvPath indented (State (AtSend [] (Some err)) AtReceive fl (Some f))
            (Exited 1 (Some f))"
      by (rule leads.exitInReader)
    with Some show ?thesis by blast
  qed
next
  case (Cons m ms)
  then have same: "sameMap m m" and rest: "\<forall>m \<in> set ms. distinct (map fst m)"
    by (simp_all add: sameMap_def)
  obtain f' where sep: "step csvPath indented (State (AtSend ms e) (AtSeparator m) fl (Some f))
                          (State (AtSend ms e) (AtObject m) False (Some f'))"
  proof (cases fl)
    case True
    then show ?thesis using that [of f] step.separatorFirst [of csvPath indented] by simp
  next
    case False
    then show ?thesis
      using that [of "writeString ('','' @ breakLine indented) False f"]
        step.separatorLater [of csvPath indented] by simp
  qed
  from Cons.IH [OF rest] obtain obs where
    "leads csvPath indented
       (State (AtSend ms e) AtReceive False (Some (writeString (jsonFunc indented m) False f')))
       obs"
    by blast
  then have "leads csvPath indented (State (AtSend ms e) (AtObject m) False (Some f')) obs"
    by (rule leads.further [OF step.object])
  then have "leads csvPath indented (State (AtSend ms e) (AtSeparator m) fl (Some f)) obs"
    by (rule leads.further [OF sep])
  then have "leads csvPath indented (State (AtSend (m # ms) e) AtReceive fl (Some f)) obs"
    by (rule leads.further [OF step.handOver [OF same]])
  then show ?case by blast
qed

lemma run_from_start:
  assumes "\<forall>m \<in> set ms. distinct (map fst m)"
  shows "\<exists>obs. leads csvPath indented (State (AtSend ms e) AtCreate True None) obs"
proof -
  from run_from_receive [OF assms] obtain obs where
    "leads csvPath indented
       (State (AtSend ms e) AtReceive True
          (Some (writeString (''['' @ breakLine indented) False (createStringWriter csvPath))))
       obs"
    by blast
  then have "leads csvPath indented
       (State (AtSend ms e) AtOpenBracket True (Some (createStringWriter csvPath))) obs"
    by (rule leads.further [OF step.openBracket])
  then have "leads csvPath indented (State (AtSend ms e) AtCreate True None) obs"
    by (rule leads.further [OF step.create])
  then show ?thesis by blast
qed

lemma run_exists: "\<exists>obs. programRun fs cl obs"
proof (cases "getFileData cl")
  case (Inl err)
  then have "programRun fs cl (Exited 1 None)" by (rule programRun.badArguments)
  then show ?thesis by blast
next
  case (Inr fileData)
  show ?thesis
  proof (cases "checkIfValidFile fs (filepath fileData)")
    case (Inl err)
    with Inr have "programRun fs cl (Exited 1 None)" by (rule programRun.badFile)
    then show ?thesis by blast
  next
    case ok: (Inr ok)
    from run_from_start [OF sent_distinct] obtain obs where
      "leads (filepath fileData) (pretty fileData)
         (State (AtSend (sent (processCsvFile fs fileData)) (fatal (processCsvFile fs fileData)))
                AtCreate True None) obs"
      by blast
    with Inr ok have "programRun fs cl obs" by (rule programRun.goroutines)
    then show ?thesis by blast
  qed
qed

text \<open>
  The runs of the program against the three ways in which \<open>main\<close> ends: refused before
  the goroutines start, completed, or stopped by the reader.
\<close>

lemma main_ExitBeforeStart:
  "main fs cl = ExitBeforeStart e \<longleftrightarrow>
     getFileData cl = Inl e
     \<or> (\<exists>fileData. getFileData cl = Inr fileData \<and> checkIfValidFile fs (filepath fileData) = Inl e)"
  by (auto simp add: main_def pipeline_def Let_def split: sum.splits option.splits)

lemma main_Completed:
  "main fs cl = Completed w skipped \<longleftrightarrow>
     (\<exists>fileData ok. getFileData cl = Inr fileData
        \<and> checkIfValidFile fs (filepath fileData) = Inr ok
        \<and> fatal (processCsvFile fs fileData) = None
        \<and> w = writeJSONFile (filepath fileData) (sent (processCsvFile fs fileData)) (pretty fileData)
        \<and> skipped = printed (processCsvFile fs fileData))"
  by (auto simp add: main_def pipeline_def Let_def split: sum.splits option.splits)

lemma main_ExitInReader:
  "main fs cl = ExitInReader e rs \<longleftrightarrow>
     (\<exists>fileData ok. getFileData cl = Inr fileData
        \<and> checkIfValidFile fs (filepath fileData) = Inr ok
        \<and> fatal (processCsvFile fs fileData) = Some e
        \<and> rs = sent (processCsvFile fs fileData))"
  by (auto simp add: main_def pipeline_def Let_def split: sum.splits option.splits)

lemma started_run:
  assumes "getFileData cl = Inr fileData" and "checkIfValidFile fs (filepath fileData) = Inr ok"
    and "programRun fs cl obs"
  shows "leads (filepath fileData) (pretty fileData)
           (State (AtSend (sent (processCsvFile fs fileData)) (fatal (processCsvFile fs fileData)))
                  AtCreate True None) obs"
  using assms(3)
proof cases
  case (badArguments err)
  with assms(1) show ?thesis by simp
next
  case (badFile fileData' err)
  with assms(1,2) show ?thesis by simp
next
  case (goroutines fileData' ok')
  with assms(1) show ?thesis by simp
qed

lemma refused_run:
  assumes "main fs cl = ExitBeforeStart e" and "programRun fs cl obs"
  shows "obs = Exited 1 None"
  using assms(2)
proof cases
  case (badArguments err)
  then show ?thesis by simp
next
  case (badFile fileData err)
  then show ?thesis by simp
next
  case (goroutines fileData ok)
  with assms(1) show ?thesis by (simp add: main_ExitBeforeStart)
qed

lemma completed_run:
  assumes "main fs cl = Completed w skipped" and "programRun fs cl obs"
  shows "obs = Exited 0 (Some (outFile w))"
proof -
  from assms(1) obtain fileData ok where
    g: "getFileData cl = Inr fileData" and c: "checkIfValidFile fs (filepath fileData) = Inr ok"
    and f: "fatal (processCsvFile fs fileData) = None"
    and w: "w = writeJSONFile (filepath fileData) (sent (processCsvFile fs fileData)) (pretty fileData)"
    by (auto simp add: main_Completed)
  let ?run = "processCsvFile fs fileData"
  let ?init = "State (AtSend (sent ?run) (fatal ?run)) AtCreate True None"
  from g c assms(2) have "leads (filepath fileData) (pretty fileData) ?init obs"
    by (rule started_run)
  moreover from f have "ending ?init = None" by simp
  ultimately have "obs = Exited 0 (finish (filepath fileData) (pretty fileData) ?init)"
    by (rule completing_run)
  with w show ?thesis by simp
qed

lemma reader_exit_run:
  assumes "main fs cl = ExitInReader e rs" and "programRun fs cl obs"
  shows "\<exists>d. obs = Exited 1 d"
proof -
  from assms(1) obtain fileData ok where
    g: "getFileData cl = Inr fileData" and c: "checkIfValidFile fs (filepath fileData) = Inr ok"
    and f: "fatal (processCsvFile fs fileData) = Some e"
    by (auto simp add: main_ExitInReader)
  let ?run = "processCsvFile fs fileData"
  let ?init = "State (AtSend (sent ?run) (fatal ?run)) AtCreate True None"
  from g c assms(2) have "leads (filepath fileData) (pretty fileData) ?init obs"
    by (rule started_run)
  moreover from f have "ending ?init = Some e" by simp
  ultimately show ?thesis by (rule exiting_run) simp_all
qed

lemma completed_example:
  "programRun (oneFile ''dir/data.csv'' ''a,b\<newline>1,2\<newline>3,4'')
      \<lparr>argc = 2, separatorFlag = ''comma'', prettyFlag = False, arg0 = ''dir/data.csv''\<rparr>
      (Exited 0 (Some \<lparr>location = ''dir/data.json'',
         writes = [(''['', False),
                   (''{'' @ DQ # ''a'' @ DQ # '':'' @ DQ # ''1'' @ DQ # '','' @ DQ # ''b'' @ DQ # '':''
                      @ DQ # ''2'' @ DQ # ''}'', False),
                   ('','', False),
                   (''{'' @ DQ # ''a'' @ DQ # '':'' @ DQ # ''3'' @ DQ # '','' @ DQ # ''b'' @ DQ # '':''
                      @ DQ # ''4'' @ DQ # ''}'', False),
                   ('']'', True)],
         closed = True\<rparr>))"
proof -
  let ?fs = "oneFile ''dir/data.csv'' ''a,b\<newline>1,2\<newline>3,4''"
  let ?cl = "\<lparr>argc = 2, separatorFlag = ''comma'', prettyFlag = False, arg0 = ''dir/data.csv''\<rparr>"
  have m: "main ?fs ?cl
    = Completed \<lparr>first = False,
        outFile = \<lparr>location = ''dir/data.json'',
         writes = [(''['', False),
                   (''{'' @ DQ # ''a'' @ DQ # '':'' @ DQ # ''1'' @ DQ # '','' @ DQ # ''b'' @ DQ # '':''
                      @ DQ # ''2'' @ DQ # ''}'', False),
                   ('','', False),
                   (''{'' @ DQ # ''a'' @ DQ # '':'' @ DQ # ''3'' @ DQ # '','' @ DQ # ''b'' @ DQ # '':''
                      @ DQ # ''4'' @ DQ # ''}'', False),
                   ('']'', True)],
         closed = True\<rparr>,
        finished = True\<rparr> []"
    by code_simp
  obtain obs where r: "programRun ?fs ?cl obs" using run_exists by blast
  from completed_run [OF m r] r show ?thesis by simp
qed

text \<open>
  C8: two runs on the same file system and command line.  The reader's part of a run is
  a function of the input and the configuration; what is free in a run is the
  interleaving of the two goroutines and the order in which the writer meets the entries
  of each record.  If \<open>main\<close> does not end in the reader's call of \<^verbatim>\<open>exitGracefully\<close>, the
  two runs end alike with the same file, byte for byte: both are refused before the
  goroutines start, with exit status 1 and no output file, or both complete with exit
  status 0 and the file that \<open>writeJSONFile\<close> makes of the records sent.  Runs that the
  reader stops are left out, because there the file depends on how far the writer had
  come when the process ended.
\<close>

theorem runs_agree_unless_reader_exits:
  assumes "programRun fs cl obs1" and "programRun fs cl obs2"
    and "\<not> exitsInReader (main fs cl)"
  shows "obs2 = obs1
         \<and> ((\<exists>e. main fs cl = ExitBeforeStart e \<and> obs1 = Exited 1 None)
            \<or> (\<exists>w skipped. main fs cl = Completed w skipped \<and> obs1 = Exited 0 (Some (outFile w))))"
proof (cases "main fs cl")
  case (ExitBeforeStart e)
  from refused_run [OF this assms(1)] refused_run [OF this assms(2)] ExitBeforeStart
  show ?thesis by simp
next
  case (ExitInReader e rs)
  with assms(3) show ?thesis by simp
next
  case (Completed w skipped)
  from completed_run [OF this assms(1)] completed_run [OF this assms(2)] Completed
  show ?thesis by simp
qed

theorem runs_agree_unless_reader_exits_witness:
  "programRun (oneFile ''dir/data.csv'' ''a,b\<newline>1,2\<newline>3,4'')
      \<lparr>argc = 2, separatorFlag = ''comma'', prettyFlag = False, arg0 = ''dir/data.csv''\<rparr>
      (Exited 0 (Some \<lparr>location = ''dir/data.json'',
         writes = [(''['', False),
                   (''{'' @ DQ # ''a'' @ DQ # '':'' @ DQ # ''1'' @ DQ # '','' @ DQ # ''b'' @ DQ # '':''
                      @ DQ # ''2'' @ DQ # ''}'', False),
                   ('','', False),
                   (''{'' @ DQ # ''a'' @ DQ # '':'' @ DQ # ''3'' @ DQ # '','' @ DQ # ''b'' @ DQ # '':''
                      @ DQ # ''4'' @ DQ # ''}'', False),
                   ('']'', True)],
         closed = True\<rparr>))
   \<and> exitsInReader
         (main (oneFile ''dir/data.csv'' ''a,b\<newline>1,2\<newline>3,4'')
            \<lparr>argc = 2, separatorFlag = ''comma'', prettyFlag = False, arg0 = ''dir/data.csv''\<rparr>)
       = False
   \<and> (\<exists>w skipped.
         main (oneFile ''dir/data.csv'' ''a,b\<newline>1,2\<newline>3,4'')
           \<lparr>argc = 2, separatorFlag = ''comma'', prettyFlag = False, arg0 = ''dir/data.csv''\<rparr>
           = Completed w skipped
         \<and> content (outFile w)
             = ''[{'' @ DQ # ''a'' @ DQ # '':'' @ DQ # ''1'' @ DQ # '','' @ DQ # ''b'' @ DQ # '':''
                 @ DQ # ''2'' @ DQ # ''},{'' @ DQ # ''a'' @ DQ # '':'' @ DQ # ''3'' @ DQ # '',''
                 @ DQ # ''b'' @ DQ # '':'' @ DQ # ''4'' @ DQ # ''}]'')"
proof -
  let ?fs = "oneFile ''dir/data.csv'' ''a,b\<newline>1,2\<newline>3,4''"
  let ?cl = "\<lparr>argc = 2, separatorFlag = ''comma'', prettyFlag = False, arg0 = ''dir/data.csv''\<rparr>"
  have h: "\<not> exitsInReader (main ?fs ?cl)"
    by code_simp
  from runs_agree_unless_reader_exits [OF completed_example completed_example h]
  obtain w skipped where
    m: "main ?fs ?cl = Completed w skipped"
    and w: "Exited 0 (Some \<lparr>location = ''dir/data.json'',
         writes = [(''['', False),
                   (''{'' @ DQ # ''a'' @ DQ # '':'' @ DQ # ''1'' @ DQ # '','' @ DQ # ''b'' @ DQ # '':''
                      @ DQ # ''2'' @ DQ # ''}'', False),
                   ('','', False),
                   (''{'' @ DQ # ''a'' @ DQ # '':'' @ DQ # ''3'' @ DQ # '','' @ DQ # ''b'' @ DQ # '':''
                      @ DQ # ''4'' @ DQ # ''}'', False),
                   ('']'', True)],
         closed = True\<rparr>) = Exited 0 (Some (outFile w))"
    by auto
  from w have "writes (outFile w)
      = [(''['', False),
         (''{'' @ DQ # ''a'' @ DQ # '':'' @ DQ # ''1'' @ DQ # '','' @ DQ # ''b'' @ DQ # '':''
            @ DQ # ''2'' @ DQ # ''}'', False),
         ('','', False),
         (''{'' @ DQ # ''a'' @ DQ # '':'' @ DQ # ''3'' @ DQ # '','' @ DQ # ''b'' @ DQ # '':''
            @ DQ # ''4'' @ DQ # ''}'', False),
         ('']'', True)]"
    by (cases "outFile w") simp
  then have "content (outFile w)
      = ''[{'' @ DQ # ''a'' @ DQ # '':'' @ DQ # ''1'' @ DQ # '','' @ DQ # ''b'' @ DQ # '':''
          @ DQ # ''2'' @ DQ # ''},{'' @ DQ # ''a'' @ DQ # '':'' @ DQ # ''3'' @ DQ # '',''
          @ DQ # ''b'' @ DQ # '':'' @ DQ # ''4'' @ DQ # ''}]''"
    by (simp add: content_def)
  with m completed_example h show ?thesis by blast
qed

text \<open>
  The file \<^verbatim>\<open>in.csv\<close> with the bytes \<^verbatim>\<open>a,b\n1,2\n3,4"\<close>: the second data line has a quote
  inside an unquoted field, for which the library reader returns \<^verbatim>\<open>ErrBareQuote\<close>, and
  \<^verbatim>\<open>processCsvFile\<close> calls \<^verbatim>\<open>exitGracefully\<close> after the first record was handed over.  In
  one run the process ends before the writer has written that record and the file holds
  the opening bracket alone; in another the record's text has been written as well.
\<close>

theorem partial_output_differs:
  "programRun (oneFile ''in.csv'' (''a,b\<newline>1,2\<newline>3,4'' @ [DQ]))
      \<lparr>argc = 2, separatorFlag = ''comma'', prettyFlag = False, arg0 = ''in.csv''\<rparr>
      (Exited 1 (Some \<lparr>location = ''./in.json'', writes = [(''['', False)], closed = False\<rparr>))
   \<and> programRun (oneFile ''in.csv'' (''a,b\<newline>1,2\<newline>3,4'' @ [DQ]))
      \<lparr>argc = 2, separatorFlag = ''comma'', prettyFlag = False, arg0 = ''in.csv''\<rparr>
      (Exited 1 (Some \<lparr>location = ''./in.json'',
         writes = [(''['', False),
                   (''{'' @ DQ # ''a'' @ DQ # '':'' @ DQ # ''1'' @ DQ # '','' @ DQ # ''b'' @ DQ # '':''
                      @ DQ # ''2'' @ DQ # ''}'', False)],
         closed = False\<rparr>))"
proof -
  let ?fs = "oneFile ''in.csv'' (''a,b\<newline>1,2\<newline>3,4'' @ [DQ])"
  let ?cl = "\<lparr>argc = 2, separatorFlag = ''comma'', prettyFlag = False, arg0 = ''in.csv''\<rparr>"
  let ?fd = "\<lparr>filepath = ''in.csv'', separator = ''comma'', pretty = False\<rparr>"
  let ?m = "[(''a'', ''1''), (''b'', ''2'')]"
  let ?e = "Some (CsvError ErrBareQuote)"
  let ?f0 = "\<lparr>location = ''./in.json'', writes = [], closed = False\<rparr>"
  let ?f1 = "\<lparr>location = ''./in.json'', writes = [(''['', False)], closed = False\<rparr>"
  let ?f2 = "\<lparr>location = ''./in.json'',
         writes = [(''['', False),
                   (''{'' @ DQ # ''a'' @ DQ # '':'' @ DQ # ''1'' @ DQ # '','' @ DQ # ''b'' @ DQ # '':''
                      @ DQ # ''2'' @ DQ # ''}'', False)],
         closed = False\<rparr>"
  have g: "getFileData ?cl = Inr ?fd" by (simp add: getFileData_def)
  have c: "checkIfValidFile ?fs (filepath ?fd) = Inr True" by code_simp
  have r: "processCsvFile ?fs ?fd = \<lparr>sent = [?m], printed = [], fatal = ?e\<rparr>" by code_simp
  have f0: "createStringWriter ''in.csv'' = ?f0" by code_simp
  have f1: "writeString (''['' @ breakLine False) False ?f0 = ?f1"
    by (simp add: writeString_def breakLine_def)
  have f2: "writeString (jsonFunc False ?m) False ?f1 = ?f2" by code_simp
  have same: "sameMap ?m ?m" by (simp add: sameMap_def)
  have s1: "step ''in.csv'' False (State (AtSend [?m] ?e) AtCreate True None)
                                (State (AtSend [?m] ?e) AtOpenBracket True (Some ?f0))"
    using step.create [of "''in.csv''" False "AtSend [?m] ?e" True] by (simp only: f0)
  have s2: "step ''in.csv'' False (State (AtSend [?m] ?e) AtOpenBracket True (Some ?f0))
                                (State (AtSend [?m] ?e) AtReceive True (Some ?f1))"
    using step.openBracket [of "''in.csv''" False "AtSend [?m] ?e" True ?f0] by (simp only: f1)
  have s3: "step ''in.csv'' False (State (AtSend [?m] ?e) AtReceive True (Some ?f1))
                                (State (AtSend [] ?e) (AtSeparator ?m) True (Some ?f1))"
    by (rule step.handOver [OF same])
  have s4: "step ''in.csv'' False (State (AtSend [] ?e) (AtSeparator ?m) True (Some ?f1))
                                (State (AtSend [] ?e) (AtObject ?m) False (Some ?f1))"
    by (rule step.separatorFirst)
  have s5: "step ''in.csv'' False (State (AtSend [] ?e) (AtObject ?m) False (Some ?f1))
                                (State (AtSend [] ?e) AtReceive False (Some ?f2))"
    using step.object [of "''in.csv''" False "AtSend [] ?e" ?m ?f1] by (simp only: f2)
  have early: "leads ''in.csv'' False (State (AtSend [?m] ?e) AtCreate True None) (Exited 1 (Some ?f1))"
    by (rule leads.further [OF s1], rule leads.further [OF s2], rule leads.further [OF s3],
        rule leads.exitInReader)
  have late: "leads ''in.csv'' False (State (AtSend [?m] ?e) AtCreate True None) (Exited 1 (Some ?f2))"
    by (rule leads.further [OF s1], rule leads.further [OF s2], rule leads.further [OF s3],
        rule leads.further [OF s4], rule leads.further [OF s5], rule leads.exitInReader)
  from early have "leads (filepath ?fd) (pretty ?fd)
      (State (AtSend (sent (processCsvFile ?fs ?fd)) (fatal (processCsvFile ?fs ?fd))) AtCreate True None)
      (Exited 1 (Some ?f1))"
    unfolding r by simp
  with g c have "programRun ?fs ?cl (Exited 1 (Some ?f1))"
    by (rule programRun.goroutines)
  moreover from late have "leads (filepath ?fd) (pretty ?fd)
      (State (AtSend (sent (processCsvFile ?fs ?fd)) (fatal (processCsvFile ?fs ?fd))) AtCreate True None)
      (Exited 1 (Some ?f2))"
    unfolding r by simp
  with g c have "programRun ?fs ?cl (Exited 1 (Some ?f2))"
    by (rule programRun.goroutines)
  ultimately show ?thesis by (rule conjI)
qed

end
